theory Spec2Isabelle
  imports Complex_Main "HOL-Library.AList"
begin

section \<open>Data model (types.ts)\<close>

text \<open>
  A TypeScript \<open>number\<close> that holds a coordinate or an area is modelled as a real
  number, with exact arithmetic: the rounding of IEEE doubles is not modelled. Identities,
  indices, counters, labels and combined field values are integers or naturals.
  \<open>Node\<close> and \<open>Particle\<close> are the same structural type: a point with an \<open>id\<close>
  (the field is called \<open>ident\<close> here, \<open>id\<close> being the identity function of HOL).
\<close>

record Point =
  x :: real
  y :: real

record Node = Point +
  ident :: int

type_synonym Particle = Node

record Crack =
  cident :: int
  points :: "Point list"

record Areas =
  area1 :: real
  area2 :: real
  area3 :: real
  area4 :: real

record Crossing =
  result :: int
  areas :: Areas

section \<open>Geometry predicate (utils.ts)\<close>

definition triangleArea ::
  "'a Point_scheme \<Rightarrow> 'b Point_scheme \<Rightarrow> 'c Point_scheme \<Rightarrow> real" where
  "triangleArea x1 x2 x3 =
     x x1 * (y x2 - y x3) + x x2 * (y x3 - y x1) + x x3 * (y x1 - y x2)"

definition distSq :: "'a Point_scheme \<Rightarrow> 'b Point_scheme \<Rightarrow> real" where
  "distSq p1 p2 = (x p1 - x p2) ^ 2 + (y p1 - y p2) ^ 2"

definition checkCrossing ::
  "'a Point_scheme \<Rightarrow> 'b Point_scheme \<Rightarrow> 'c Point_scheme \<Rightarrow> 'd Point_scheme \<Rightarrow> Crossing" where
  "checkCrossing p n cStart cEnd =
     (let a1 = triangleArea p n cStart;
          a2 = triangleArea p n cEnd;
          a3 = triangleArea cStart cEnd p;
          a4 = triangleArea cStart cEnd n;
          res = (if a1 < 0 \<and> a2 \<ge> 0 \<and> a3 \<ge> 0 \<and> a4 < 0 then 2
                 else if a1 \<ge> 0 \<and> a2 < 0 \<and> a3 < 0 \<and> a4 \<ge> 0 then 3
                 else 0)
      in \<lparr>result = res,
          areas = \<lparr>area1 = a1, area2 = a2, area3 = a3, area4 = a4\<rparr>\<rparr>)"

section \<open>The step trace (types.ts)\<close>

text \<open>
  The accumulator and the snapshots are JavaScript objects keyed by the string
  \<open>nodeId-particleId\<close>. For integer identities that string determines the two
  identities (the separator is the first dash that follows a digit), so a key is modelled
  as the pair of identities. An object enumerates such keys in insertion order and an
  assignment to an existing key keeps its place: an association list with
  \<open>AList.update\<close>.

  A description is a template string; it is modelled by a constructor that carries the
  values the template interpolates.
\<close>

type_synonym key = "int \<times> int"

datatype descr =
    Initialization
  | ProcessingCrack int
  | Checking int int nat
  | ResultNode int int int
  | ConsistencyPhase int
  | NodeSees int "int list"
  | Warning int
  | Normalizing int int int
  | Complete

record SimulationStep =
  stepId :: nat
  description :: descr
  highlightNodeId :: "int option"
  highlightParticleId :: "int option"
  highlightCrackId :: "int option"
  highlightSegmentIndex :: "nat option"
  segmentCounts :: "(nat \<times> nat) option"
  triangleA :: "Point list option"
  triangleB :: "Point list option"
  triangleC :: "Point list option"
  triangleD :: "Point list option"
  stepAreas :: "Areas option"
  crossingResult :: "int option"
  consistencyNodeId :: "int option"
  consistencyFields :: "int list option"
  normalizationAction :: "(int \<times> int) option"
  currentFieldState :: "(key \<times> int) list"

text \<open>A step with only its three mandatory fields; the optional ones are absent.\<close>

definition plainStep :: "descr \<Rightarrow> nat \<Rightarrow> (key \<times> int) list \<Rightarrow> SimulationStep" where
  "plainStep d sid fs =
     \<lparr>stepId = sid, description = d,
      highlightNodeId = None, highlightParticleId = None, highlightCrackId = None,
      highlightSegmentIndex = None, segmentCounts = None,
      triangleA = None, triangleB = None, triangleC = None, triangleD = None,
      stepAreas = None, crossingResult = None,
      consistencyNodeId = None, consistencyFields = None, normalizationAction = None,
      currentFieldState = fs\<rparr>"

section \<open>State of generateSimulationSteps (utils.ts)\<close>

text \<open>
  The only way the function can fail is a \<open>TypeError\<close>: a property read on
  \<open>undefined\<close>, when a looked-up key is absent from one of its tables.
\<close>

datatype error = TypeError

type_synonym fieldAcc = "(key \<times> int list) list"

record state =
  steps :: "SimulationStep list"
  stepCounter :: nat
  fieldAccumulator :: fieldAcc

text \<open>
  Reading and writing one slot of a label array. Inside \<open>generateSimulationSteps\<close>
  the index is a crack index and the array has one slot per crack, so it is always in
  range. Out of range, JavaScript reads \<open>undefined\<close> and a write extends the array
  with empty slots; \<open>undefined\<close> is written 0 here, which is no label either.
\<close>

definition getSlot :: "int list \<Rightarrow> nat \<Rightarrow> int" where
  "getSlot slots i = (if i < length slots then slots ! i else 0)"

definition setSlot :: "int list \<Rightarrow> nat \<Rightarrow> int \<Rightarrow> int list" where
  "setSlot slots i v =
     (if i < length slots then slots[i := v]
      else slots @ replicate (i - length slots) 0 @ [v])"

text \<open>\<open>arr.forEach\<close> with a callback that may throw: the first error ends the loop.\<close>

fun forEach :: "'a list \<Rightarrow> ('a \<Rightarrow> 's \<Rightarrow> error + 's) \<Rightarrow> 's \<Rightarrow> error + 's" where
  "forEach [] f s = Inr s"
| "forEach (a # as) f s = (case f a s of Inl e \<Rightarrow> Inl e | Inr s' \<Rightarrow> forEach as f s')"

subsection \<open>Field encoder\<close>

text \<open>
  \<open>computeCombinedField\<close> reduces the label array of a pair to the number
  \<open>\<Sum> label * 3 ** idx\<close>. The code adds in JavaScript numbers, which are doubles;
  \<open>combinedValue\<close> is the exact sum over the integers. The two agree as long as the sum
  stays below \<open>2 ^ 53\<close>, which is the case for label arrays over \<open>{1, 2, 3}\<close> of up to
  33 cracks (lemma \<open>combinedValue_exact\<close> below); for longer arrays the code's value is a
  rounded sum, which this definition does not give. The statements about snapshots below
  use \<open>combinedValue\<close> as the name of the encoder's value of a label array and say which
  array is encoded; none of them decodes a value back into labels or relies on the
  arithmetic of the sum, except to evaluate it on arrays of one or two labels.
\<close>

definition combinedValue :: "int list \<Rightarrow> int" where
  "combinedValue slots =
     foldl (\<lambda>val (fieldVal, idx). val + fieldVal * 3 ^ idx) 0 (zip slots [0..<length slots])"

definition computeCombinedField :: "fieldAcc \<Rightarrow> (key \<times> int) list" where
  "computeCombinedField acc = map (\<lambda>(k, slots). (k, combinedValue slots)) acc"

text \<open>\<open>steps.push\<close> of a step that takes the next \<open>stepCounter\<close> and a snapshot.\<close>

definition push :: "(nat \<Rightarrow> (key \<times> int) list \<Rightarrow> SimulationStep) \<Rightarrow> state \<Rightarrow> state" where
  "push mk st =
     st\<lparr>steps := steps st @ [mk (stepCounter st) (computeCombinedField (fieldAccumulator st))],
        stepCounter := stepCounter st + 1\<rparr>"

subsection \<open>Connectivity builder\<close>

text \<open>
  \<open>Array.prototype.sort\<close> is stable, and so is \<open>sort_key\<close>: nodes at the same
  distance keep their input order.
\<close>

definition connectedNodes :: "Node list \<Rightarrow> Particle \<Rightarrow> Node list" where
  "connectedNodes nodes p = take 4 (sort_key (\<lambda>a. distSq p a) nodes)"

definition buildParticleToNodes :: "Node list \<Rightarrow> Particle list \<Rightarrow> (int \<rightharpoonup> int list)" where
  "buildParticleToNodes nodes particles =
     foldl (\<lambda>m p. m(ident p \<mapsto> map ident (connectedNodes nodes p))) Map.empty particles"

definition pushParticle :: "int \<Rightarrow> Node \<Rightarrow> (int \<rightharpoonup> int list) \<Rightarrow> error + (int \<rightharpoonup> int list)" where
  "pushParticle pid n m =
     (case m (ident n) of
        None \<Rightarrow> Inl TypeError
      | Some ps \<Rightarrow> Inr (m(ident n \<mapsto> ps @ [pid])))"

definition buildNodeToParticles ::
  "Node list \<Rightarrow> Particle list \<Rightarrow> error + (int \<rightharpoonup> int list)" where
  "buildNodeToParticles nodes particles =
     forEach particles
       (\<lambda>p. forEach (connectedNodes nodes p) (pushParticle (ident p)))
       (foldl (\<lambda>m n. m(ident n \<mapsto> [])) Map.empty nodes)"

subsection \<open>Initial accumulator\<close>

definition initPair :: "nat \<Rightarrow> Particle \<Rightarrow> int \<Rightarrow> fieldAcc \<Rightarrow> error + fieldAcc" where
  "initPair ncracks p nodeId acc =
     Inr (AList.update (nodeId, ident p) (replicate ncracks 1) acc)"

definition initAccumulator ::
  "(int \<rightharpoonup> int list) \<Rightarrow> Particle list \<Rightarrow> nat \<Rightarrow> error + fieldAcc" where
  "initAccumulator particleToNodes particles ncracks =
     forEach particles
       (\<lambda>p acc. case particleToNodes (ident p) of
                  None \<Rightarrow> Inl TypeError
                | Some nodeIds \<Rightarrow> forEach nodeIds (initPair ncracks p) acc)
       []"

subsection \<open>Field accumulator: the crossing phase\<close>

definition segmentStep ::
  "Particle \<Rightarrow> Node \<Rightarrow> Crack \<Rightarrow> nat \<times> nat \<times> state \<Rightarrow> nat \<Rightarrow> nat \<times> nat \<times> state" where
  "segmentStep p n crack = (\<lambda>(field2_count, field3_count, st) i.
     let start = points crack ! i;
         end = points crack ! (i + 1);
         c = checkCrossing p n start end;
         f2 = (if result c = 2 then field2_count + 1 else field2_count);
         f3 = (if result c = 3 then field3_count + 1 else field3_count)
     in (f2, f3,
         push (\<lambda>sid fs. (plainStep (Checking (ident n) (ident p) i) sid fs)
                \<lparr>highlightNodeId := Some (ident n),
                 highlightParticleId := Some (ident p),
                 highlightCrackId := Some (cident crack),
                 highlightSegmentIndex := Some i,
                 triangleA := Some [Point.truncate p, Point.truncate n, start],
                 triangleB := Some [Point.truncate p, Point.truncate n, end],
                 triangleC := Some [start, end, Point.truncate p],
                 triangleD := Some [start, end, Point.truncate n],
                 stepAreas := Some (areas c),
                 crossingResult := Some (result c),
                 segmentCounts := Some (f2, f3)\<rparr>) st))"

definition segmentLoop :: "Particle \<Rightarrow> Node \<Rightarrow> Crack \<Rightarrow> state \<Rightarrow> nat \<times> nat \<times> state" where
  "segmentLoop p n crack st =
     foldl (segmentStep p n crack) (0, 0, st) [0..<length (points crack) - 1]"

definition cancellation :: "nat \<Rightarrow> nat \<Rightarrow> nat \<times> nat" where
  "cancellation field2_count field3_count =
     (if field2_count > 0 \<and> field3_count > 0
      then (field2_count - min field2_count field3_count,
            field3_count - min field2_count field3_count)
      else (field2_count, field3_count))"

definition finalFieldOf :: "nat \<Rightarrow> nat \<Rightarrow> int" where
  "finalFieldOf field2_count field3_count =
     (let (f2, f3) = cancellation field2_count field3_count
      in if f2 mod 2 = 1 then 2 else if f3 mod 2 = 1 then 3 else 1)"

definition crossingPair ::
  "Node list \<Rightarrow> Crack \<Rightarrow> nat \<Rightarrow> Particle \<Rightarrow> int \<Rightarrow> state \<Rightarrow> error + state" where
  "crossingPair nodes crack crackIdx p nodeId st =
     (case find (\<lambda>node. ident node = nodeId) nodes of
        None \<Rightarrow> Inl TypeError
      | Some n \<Rightarrow>
          let key = (ident n, ident p);
              (field2_count, field3_count, st1) = segmentLoop p n crack st;
              finalField = finalFieldOf field2_count field3_count
          in (case map_of (fieldAccumulator st1) key of
                None \<Rightarrow> Inl TypeError
              | Some slots \<Rightarrow>
                  let changed = (getSlot slots crackIdx \<noteq> finalField);
                      st2 = st1\<lparr>fieldAccumulator :=
                               AList.update key (setSlot slots crackIdx finalField)
                                 (fieldAccumulator st1)\<rparr>
                  in if changed \<or> finalField \<noteq> 1
                     then Inr (push (\<lambda>sid fs. (plainStep (ResultNode (ident n) (ident p) finalField) sid fs)
                                 \<lparr>highlightNodeId := Some (ident n),
                                  highlightParticleId := Some (ident p),
                                  highlightCrackId := Some (cident crack),
                                  crossingResult := Some finalField\<rparr>) st2)
                     else Inr st2))"

definition crossingPhase ::
  "Node list \<Rightarrow> Particle list \<Rightarrow> (int \<rightharpoonup> int list) \<Rightarrow> Crack \<Rightarrow> nat \<Rightarrow> state \<Rightarrow> error + state" where
  "crossingPhase nodes particles particleToNodes crack crackIdx =
     forEach particles
       (\<lambda>p st. case particleToNodes (ident p) of
                 None \<Rightarrow> Inl TypeError
               | Some connectedNodeIds \<Rightarrow>
                   forEach connectedNodeIds (crossingPair nodes crack crackIdx p) st)"

subsection \<open>Consistency normalizer\<close>

text \<open>\<open>Set.add\<close>: a set keeps its elements in insertion order.\<close>

definition setAdd :: "int list \<Rightarrow> int \<Rightarrow> int list" where
  "setAdd seen v = (if v \<in> set seen then seen else seen @ [v])"

definition seeField :: "fieldAcc \<Rightarrow> nat \<Rightarrow> Node \<Rightarrow> int \<Rightarrow> int list \<Rightarrow> error + int list" where
  "seeField acc crackIdx n pid seen =
     (case map_of acc (ident n, pid) of
        None \<Rightarrow> Inl TypeError
      | Some slots \<Rightarrow> Inr (setAdd seen (getSlot slots crackIdx)))"

definition remapPair :: "nat \<Rightarrow> Node \<Rightarrow> int \<Rightarrow> int \<Rightarrow> int \<Rightarrow> state \<Rightarrow> error + state" where
  "remapPair crackIdx n remapFrom remapTo pid st =
     (case map_of (fieldAccumulator st) (ident n, pid) of
        None \<Rightarrow> Inl TypeError
      | Some slots \<Rightarrow>
          if getSlot slots crackIdx = remapFrom
          then Inr (st\<lparr>fieldAccumulator :=
                      AList.update (ident n, pid) (setSlot slots crackIdx remapTo)
                        (fieldAccumulator st)\<rparr>)
          else Inr st)"

definition remapChoice :: "int list \<Rightarrow> int \<times> int" where
  "remapChoice sortedFields =
     (if 1 \<in> set sortedFields \<and> 2 \<in> set sortedFields then (1, 3)
      else if 1 \<in> set sortedFields \<and> 3 \<in> set sortedFields then (1, 2)
      else (- 1, - 1))"

definition consistencyStep ::
  "descr \<Rightarrow> Node \<Rightarrow> int list \<Rightarrow> nat \<Rightarrow> (key \<times> int) list \<Rightarrow> SimulationStep" where
  "consistencyStep d n sortedFields sid fs =
     (plainStep d sid fs)
       \<lparr>highlightNodeId := Some (ident n),
        consistencyNodeId := Some (ident n),
        consistencyFields := Some sortedFields\<rparr>"

definition consistencyNode ::
  "(int \<rightharpoonup> int list) \<Rightarrow> nat \<Rightarrow> Node \<Rightarrow> state \<Rightarrow> error + state" where
  "consistencyNode nodeToParticles crackIdx n st =
     (case nodeToParticles (ident n) of
        None \<Rightarrow> Inl TypeError
      | Some connectedParticleIds \<Rightarrow>
          if length connectedParticleIds = 0 then Inr st
          else
            (case forEach connectedParticleIds (seeField (fieldAccumulator st) crackIdx n) [] of
              Inl e \<Rightarrow> Inl e
            | Inr seenFields \<Rightarrow>
                let sortedFields = sort seenFields;
                    st1 = push (consistencyStep (NodeSees (ident n) sortedFields) n sortedFields) st;
                    st2 = (if length sortedFields = 3
                           then push (consistencyStep (Warning (ident n)) n sortedFields) st1
                           else st1)
                in if length sortedFields = 2
                   then
                     let (remapFrom, remapTo) = remapChoice sortedFields
                     in if remapFrom \<noteq> - 1
                        then
                          (case forEach connectedParticleIds
                                  (remapPair crackIdx n remapFrom remapTo) st2 of
                             Inl e \<Rightarrow> Inl e
                           | Inr st3 \<Rightarrow>
                               Inr (push (\<lambda>sid fs.
                                      (consistencyStep (Normalizing (ident n) remapFrom remapTo)
                                         n sortedFields sid fs)
                                        \<lparr>normalizationAction := Some (remapFrom, remapTo)\<rparr>) st3))
                        else Inr st2
                   else Inr st2))"

subsection \<open>The whole run\<close>

definition crackStep :: "descr \<Rightarrow> Crack \<Rightarrow> nat \<Rightarrow> (key \<times> int) list \<Rightarrow> SimulationStep" where
  "crackStep d crack sid fs = (plainStep d sid fs)\<lparr>highlightCrackId := Some (cident crack)\<rparr>"

definition processCrack ::
  "Node list \<Rightarrow> Particle list \<Rightarrow> (int \<rightharpoonup> int list) \<Rightarrow> (int \<rightharpoonup> int list) \<Rightarrow>
   Crack \<times> nat \<Rightarrow> state \<Rightarrow> error + state" where
  "processCrack nodes particles particleToNodes nodeToParticles = (\<lambda>(crack, crackIdx) st.
     let st1 = push (crackStep (ProcessingCrack (cident crack + 1)) crack) st
     in (case crossingPhase nodes particles particleToNodes crack crackIdx st1 of
           Inl e \<Rightarrow> Inl e
         | Inr st2 \<Rightarrow>
             forEach nodes (consistencyNode nodeToParticles crackIdx)
               (push (crackStep (ConsistencyPhase (cident crack + 1)) crack) st2)))"

definition generateSimulationSteps ::
  "Node list \<Rightarrow> Particle list \<Rightarrow> Crack list \<Rightarrow> error + SimulationStep list" where
  "generateSimulationSteps nodes particles cracks =
     (let particleToNodes = buildParticleToNodes nodes particles
      in case buildNodeToParticles nodes particles of
           Inl e \<Rightarrow> Inl e
         | Inr nodeToParticles \<Rightarrow>
             (case initAccumulator particleToNodes particles (length cracks) of
                Inl e \<Rightarrow> Inl e
              | Inr acc \<Rightarrow>
                  let st0 = push (plainStep Initialization)
                              \<lparr>steps = [], stepCounter = 0, fieldAccumulator = acc\<rparr>
                  in (case forEach (zip cracks [0..<length cracks])
                             (processCrack nodes particles particleToNodes nodeToParticles) st0 of
                        Inl e \<Rightarrow> Inl e
                      | Inr st \<Rightarrow> Inr (steps (push (plainStep Complete) st)))))"

subsection \<open>Presets\<close>

definition mkNode :: "int \<Rightarrow> real \<Rightarrow> real \<Rightarrow> Node" where
  "mkNode i a b = \<lparr>x = a, y = b, ident = i\<rparr>"

definition case1_nodes :: "Node list" where
  "case1_nodes = [mkNode 0 2 2, mkNode 1 8 2, mkNode 2 2 8, mkNode 3 8 8]"

definition case1_particles :: "Particle list" where
  "case1_particles = [mkNode 0 5 4, mkNode 1 5 6]"

definition case1_cracks :: "Crack list" where
  "case1_cracks = [\<lparr>cident = 0, points = [\<lparr>x = 1, y = 5\<rparr>, \<lparr>x = 9, y = 5\<rparr>]\<rparr>]"

section \<open>Auxiliary definitions for the statements\<close>

text \<open>The classification of every segment of a crack for one pair, in segment order.\<close>

definition segmentResults :: "Particle \<Rightarrow> Node \<Rightarrow> Crack \<Rightarrow> int list" where
  "segmentResults p n crack =
     map (\<lambda>i. result (checkCrossing p n (points crack ! i) (points crack ! (i + 1))))
       [0..<length (points crack) - 1]"

text \<open>A small state with the single pair of node 2 and particle 0, and one crack.\<close>

definition pair_state :: state where
  "pair_state = \<lparr>steps = [], stepCounter = 0, fieldAccumulator = [((2, 0), [1])]\<rparr>"

text \<open>
  The label a pair holds for one crack, if the pair has an entry, and the set of labels a
  node sees for a crack across a list of particle identities.
\<close>

definition slotOf :: "fieldAcc \<Rightarrow> key \<Rightarrow> nat \<Rightarrow> int option" where
  "slotOf acc k i = map_option (\<lambda>slots. getSlot slots i) (map_of acc k)"

definition seenLabels :: "fieldAcc \<Rightarrow> nat \<Rightarrow> Node \<Rightarrow> int list \<Rightarrow> int option set" where
  "seenLabels acc crackIdx n pids = (\<lambda>pid. slotOf acc (ident n, pid) crackIdx) ` set pids"

text \<open>
  A state whose accumulator holds one crack's label for pairs of node 0, and the
  node-to-particles table of node 0.
\<close>

definition labels_state :: "(int \<times> int) list \<Rightarrow> state" where
  "labels_state ls =
     \<lparr>steps = [], stepCounter = 0,
      fieldAccumulator = map (\<lambda>(pid, l). ((0, pid), [l])) ls\<rparr>"

definition labels_table :: "int list \<Rightarrow> (int \<rightharpoonup> int list)" where
  "labels_table pids = [0 \<mapsto> pids]"

text \<open>What the statements about whole traces read off a step.\<close>

definition stepView ::
  "SimulationStep \<Rightarrow> descr \<times> int option \<times> int list option \<times> (int \<times> int) option" where
  "stepView s = (description s, crossingResult s, consistencyFields s, normalizationAction s)"

text \<open>
  A node identity and a particle identity are linked when some particle with that identity
  has a node with that identity among its connected nodes.
\<close>

definition linked :: "Node list \<Rightarrow> Particle list \<Rightarrow> int \<Rightarrow> int \<Rightarrow> bool" where
  "linked nodes particles nid pid =
     (\<exists>p\<in>set particles. ident p = pid \<and> nid \<in> ident ` set (connectedNodes nodes p))"

text \<open>A crack that is a single point.\<close>

definition short_cracks :: "Crack list" where
  "short_cracks = [\<lparr>cident = 0, points = [\<lparr>x = 1, y = 5\<rparr>]\<rparr>]"

text \<open>
  The properties the run keeps, for a set \<open>K\<close> of keys. A pair's label array has one
  label per crack, each in \<open>{1, 2, 3}\<close>, and its label for a crack of fewer than 2
  points is 1. A step is a pair step when it reports a segment test or a pair's result,
  and a crack start when it announces a crack. A recorded step is in order when its snapshot
  is the encoding of an accumulator with the keys \<open>K\<close> and such label arrays and, if it
  is a pair step, it was recorded for a crack of at least 2 points. A state is in order
  over a list \<open>base\<close> of steps when its accumulator and its steps are, and its steps are
  \<open>base\<close> followed by steps that satisfy \<open>R\<close>.
\<close>

definition slotsOK :: "Crack list \<Rightarrow> int list \<Rightarrow> bool" where
  "slotsOK cracks slots =
     (length slots = length cracks \<and> set slots \<subseteq> {1, 2, 3}
      \<and> (\<forall>k<length cracks. length (points (cracks ! k)) < 2 \<longrightarrow> slots ! k = 1))"

definition accOK :: "Crack list \<Rightarrow> key set \<Rightarrow> fieldAcc \<Rightarrow> bool" where
  "accOK cracks K acc =
     (dom (map_of acc) = K \<and> (\<forall>(k, slots)\<in>set acc. slotsOK cracks slots))"

definition isPairStep :: "SimulationStep \<Rightarrow> bool" where
  "isPairStep s =
     (case description s of Checking _ _ _ \<Rightarrow> True | ResultNode _ _ _ \<Rightarrow> True | _ \<Rightarrow> False)"

definition isCrackStart :: "SimulationStep \<Rightarrow> bool" where
  "isCrackStart s = (case description s of ProcessingCrack _ \<Rightarrow> True | _ \<Rightarrow> False)"

definition stepOK :: "Crack list \<Rightarrow> key set \<Rightarrow> SimulationStep \<Rightarrow> bool" where
  "stepOK cracks K s =
     ((\<exists>acc. accOK cracks K acc \<and> currentFieldState s = computeCombinedField acc)
      \<and> (isPairStep s \<longrightarrow>
           (\<exists>j<length cracks. \<not> length (points (cracks ! j)) < 2
              \<and> highlightCrackId s = Some (cident (cracks ! j)))))"

definition stateOK ::
  "Crack list \<Rightarrow> key set \<Rightarrow> (SimulationStep \<Rightarrow> bool) \<Rightarrow> SimulationStep list \<Rightarrow> state \<Rightarrow> bool" where
  "stateOK cracks K R base st =
     (accOK cracks K (fieldAccumulator st)
      \<and> (\<forall>s\<in>set (steps st). stepOK cracks K s)
      \<and> (\<exists>rest. steps st = base @ rest \<and> (\<forall>s\<in>set rest. R s)))"

text \<open>The weaker property of an accumulator alone: \<open>N\<close> labels per pair.\<close>

definition labelled :: "nat \<Rightarrow> fieldAcc \<Rightarrow> bool" where
  "labelled N acc = (\<forall>(key, slots)\<in>set acc. length slots = N \<and> set slots \<subseteq> {1, 2, 3})"

text \<open>A crack of a single point, followed by a crack of one segment.\<close>

definition two_cracks :: "Crack list" where
  "two_cracks = [\<lparr>cident = 0, points = [\<lparr>x = 1, y = 5\<rparr>]\<rparr>,
                 \<lparr>cident = 1, points = [\<lparr>x = 1, y = 5\<rparr>, \<lparr>x = 9, y = 5\<rparr>]\<rparr>]"

text \<open>Five nodes on a line, and two particles that share the identity 0.\<close>

definition line_nodes :: "Node list" where
  "line_nodes = [mkNode 0 0 0, mkNode 1 1 0, mkNode 2 2 0, mkNode 3 3 0, mkNode 4 4 0]"

definition twin_particles :: "Particle list" where
  "twin_particles = [mkNode 0 0 1, mkNode 0 4 1]"

section \<open>The crossing classifier\<close>

text \<open>
  Claim C1. For all four points, \<open>checkCrossing\<close> returns the four signed areas
  \<open>triangleArea p n s\<close>, \<open>triangleArea p n e\<close>, \<open>triangleArea s e p\<close>, \<open>triangleArea s e n\<close>,
  where \<open>triangleArea a b c = a.x (b.y - c.y) + b.x (c.y - a.y) + c.x (a.y - b.y)\<close>, and its
  result is 2 exactly for the sign pattern (-,+,+,-), 3 exactly for (+,-,-,+), and 0 for
  every other pattern.
\<close>

theorem checkCrossing_spec:
  "triangleArea a b c = x a * (y b - y c) + x b * (y c - y a) + x c * (y a - y b)
   \<and> areas (checkCrossing p n s e) =
         \<lparr>area1 = triangleArea p n s, area2 = triangleArea p n e,
          area3 = triangleArea s e p, area4 = triangleArea s e n\<rparr>
   \<and> (result (checkCrossing p n s e) = 2 \<longleftrightarrow>
         (triangleArea p n s < 0 \<and> triangleArea p n e \<ge> 0
          \<and> triangleArea s e p \<ge> 0 \<and> triangleArea s e n < 0))
   \<and> (result (checkCrossing p n s e) = 3 \<longleftrightarrow>
         (triangleArea p n s \<ge> 0 \<and> triangleArea p n e < 0
          \<and> triangleArea s e p < 0 \<and> triangleArea s e n \<ge> 0))
   \<and> result (checkCrossing p n s e) =
         (if triangleArea p n s < 0 \<and> triangleArea p n e \<ge> 0
             \<and> triangleArea s e p \<ge> 0 \<and> triangleArea s e n < 0 then 2
          else if triangleArea p n s \<ge> 0 \<and> triangleArea p n e < 0
             \<and> triangleArea s e p < 0 \<and> triangleArea s e n \<ge> 0 then 3
          else 0)"
  by (simp add: checkCrossing_def Let_def triangleArea_def)

text \<open>
  Claim C8 as stated fails on the boundary of the classifier: with the particle on the line
  of the segment, \<open>area3 = 0\<close> is accepted by the pattern of result 2, and after the
  reversal \<open>- area3 = 0\<close> is rejected by the pattern of result 3.
\<close>

theorem checkCrossing_reversed_counterexample:
  "result (checkCrossing \<lparr>x = 1, y = 0\<rparr> \<lparr>x = 1, y = - 1\<rparr> \<lparr>x = 0, y = 0\<rparr> \<lparr>x = 2, y = 0\<rparr>) = 2
   \<and> result (checkCrossing \<lparr>x = 1, y = 0\<rparr> \<lparr>x = 1, y = - 1\<rparr> \<lparr>x = 2, y = 0\<rparr> \<lparr>x = 0, y = 0\<rparr>) \<noteq> 3"
  by (simp add: checkCrossing_def Let_def triangleArea_def)

lemma triangleArea_reversed: "triangleArea e s q = - triangleArea s e q"
  by (simp add: triangleArea_def algebra_simps)

text \<open>
  Claim C8, amended. Reversing the segment swaps \<open>area1\<close> with \<open>area2\<close> and negates
  \<open>area3\<close> and \<open>area4\<close>. A crossing classified 2 is classified 3 after the reversal when
  the particle is off the line of the segment (\<open>area3 \<noteq> 0\<close>), and 0 when it is on it; a
  crossing classified 3 is classified 2 after the reversal when the node is off the line
  of the segment (\<open>area4 \<noteq> 0\<close>), and 0 when it is on it.
\<close>

theorem checkCrossing_reversed:
  "(result (checkCrossing p n s e) = 2 \<longrightarrow>
      result (checkCrossing p n e s) = (if triangleArea s e p = 0 then 0 else 3))
   \<and> (result (checkCrossing p n s e) = 3 \<longrightarrow>
      result (checkCrossing p n e s) = (if triangleArea s e n = 0 then 0 else 2))
   \<and> areas (checkCrossing p n e s) =
        \<lparr>area1 = area2 (areas (checkCrossing p n s e)),
         area2 = area1 (areas (checkCrossing p n s e)),
         area3 = - area3 (areas (checkCrossing p n s e)),
         area4 = - area4 (areas (checkCrossing p n s e))\<rparr>"
  by (simp add: checkCrossing_def Let_def triangleArea_reversed [of e s] split: if_splits)

theorem checkCrossing_reversed_witness:
  "result (checkCrossing (mkNode 1 5 6) (mkNode 0 2 2) \<lparr>x = 1, y = 5\<rparr> \<lparr>x = 9, y = 5\<rparr>) = 2
   \<and> triangleArea \<lparr>x = 1, y = 5\<rparr> \<lparr>x = 9, y = 5\<rparr> (mkNode 1 5 6) \<noteq> 0
   \<and> result (checkCrossing (mkNode 1 5 6) (mkNode 0 2 2) \<lparr>x = 9, y = 5\<rparr> \<lparr>x = 1, y = 5\<rparr>) = 3
   \<and> result (checkCrossing (mkNode 0 5 4) (mkNode 2 2 8) \<lparr>x = 1, y = 5\<rparr> \<lparr>x = 9, y = 5\<rparr>) = 3
   \<and> triangleArea \<lparr>x = 1, y = 5\<rparr> \<lparr>x = 9, y = 5\<rparr> (mkNode 2 2 8) \<noteq> 0
   \<and> result (checkCrossing (mkNode 0 5 4) (mkNode 2 2 8) \<lparr>x = 9, y = 5\<rparr> \<lparr>x = 1, y = 5\<rparr>) = 2"
proof -
  have a: "result (checkCrossing (mkNode 1 5 6) (mkNode 0 2 2) \<lparr>x = 1, y = 5\<rparr> \<lparr>x = 9, y = 5\<rparr>) = 2"
    by (simp add: checkCrossing_def Let_def triangleArea_def mkNode_def)
  have b: "triangleArea \<lparr>x = 1, y = 5\<rparr> \<lparr>x = 9, y = 5\<rparr> (mkNode 1 5 6) \<noteq> 0"
    by (simp add: triangleArea_def mkNode_def)
  have c: "result (checkCrossing (mkNode 0 5 4) (mkNode 2 2 8) \<lparr>x = 1, y = 5\<rparr> \<lparr>x = 9, y = 5\<rparr>) = 3"
    by (simp add: checkCrossing_def Let_def triangleArea_def mkNode_def)
  have d: "triangleArea \<lparr>x = 1, y = 5\<rparr> \<lparr>x = 9, y = 5\<rparr> (mkNode 2 2 8) \<noteq> 0"
    by (simp add: triangleArea_def mkNode_def)
  from a b c d
    checkCrossing_reversed [of "mkNode 1 5 6" "mkNode 0 2 2" "\<lparr>x = 1, y = 5\<rparr>" "\<lparr>x = 9, y = 5\<rparr>"]
    checkCrossing_reversed [of "mkNode 0 5 4" "mkNode 2 2 8" "\<lparr>x = 1, y = 5\<rparr>" "\<lparr>x = 9, y = 5\<rparr>"]
  show ?thesis by simp
qed

section \<open>Cancellation and the final label\<close>

lemma segmentStep_foldl:
  "foldl (segmentStep p n crack) (a, b, st) is = (a', b', st') \<Longrightarrow>
     a' = a + length (filter (\<lambda>i. result (checkCrossing p n (points crack ! i) (points crack ! (i + 1))) = 2) is)
   \<and> b' = b + length (filter (\<lambda>i. result (checkCrossing p n (points crack ! i) (points crack ! (i + 1))) = 3) is)
   \<and> fieldAccumulator st' = fieldAccumulator st"
proof (induction "is" arbitrary: a b st)
  case Nil
  then show ?case by simp
next
  case (Cons i "is")
  obtain a1 b1 st1 where s: "segmentStep p n crack (a, b, st) i = (a1, b1, st1)"
    by (cases "segmentStep p n crack (a, b, st) i") auto
  from Cons.prems s have "foldl (segmentStep p n crack) (a1, b1, st1) is = (a', b', st')"
    by simp
  from Cons.IH [OF this] s show ?case
    by (auto simp: segmentStep_def Let_def push_def split: if_splits)
qed

lemma segmentLoop_counts:
  "segmentLoop p n crack st = (f2, f3, st1) \<Longrightarrow>
     f2 = length (filter (\<lambda>r. r = 2) (segmentResults p n crack))
   \<and> f3 = length (filter (\<lambda>r. r = 3) (segmentResults p n crack))
   \<and> fieldAccumulator st1 = fieldAccumulator st"
  unfolding segmentLoop_def segmentResults_def
  by (drule segmentStep_foldl) (simp add: filter_map o_def)

lemma getSlot_setSlot: "getSlot (setSlot slots i v) i = v"
  by (simp add: getSlot_def setSlot_def nth_append)

lemma getSlot_setSlot_other: "j \<noteq> i \<Longrightarrow> getSlot (setSlot slots i v) j = getSlot slots j"
  by (auto simp: getSlot_def setSlot_def nth_append nth_Cons')

lemma fieldAccumulator_push [simp]: "fieldAccumulator (push mk st) = fieldAccumulator st"
  by (simp add: push_def)

text \<open>
  Claim C2. When a pair has been processed for a crack, with \<open>f2\<close> segments classified 2
  and \<open>f3\<close> segments classified 3, the cancellation subtracts \<open>min f2 f3\<close> from both
  counters when both are positive, at least one of the resulting counters \<open>c2\<close>, \<open>c3\<close> is
  0, and the label written to the pair's slot for that crack is 2 if \<open>c2\<close> is odd, else 3 if
  \<open>c3\<close> is odd, else 1.
\<close>

theorem cancellation_final_label:
  assumes "crossingPair nodes crack crackIdx p nodeId st = Inr st'"
  shows "\<exists>n slots f2 f3 c2 c3.
           find (\<lambda>node. ident node = nodeId) nodes = Some n
         \<and> f2 = length (filter (\<lambda>r. r = 2) (segmentResults p n crack))
         \<and> f3 = length (filter (\<lambda>r. r = 3) (segmentResults p n crack))
         \<and> cancellation f2 f3 = (c2, c3)
         \<and> c2 = (if f2 > 0 \<and> f3 > 0 then f2 - min f2 f3 else f2)
         \<and> c3 = (if f2 > 0 \<and> f3 > 0 then f3 - min f2 f3 else f3)
         \<and> (c2 = 0 \<or> c3 = 0)
         \<and> map_of (fieldAccumulator st') (ident n, ident p) = Some slots
         \<and> getSlot slots crackIdx = (if odd c2 then 2 else if odd c3 then 3 else 1)"
proof -
  from assms obtain n where n: "find (\<lambda>node. ident node = nodeId) nodes = Some n"
    by (auto simp: crossingPair_def split: option.splits)
  obtain f2 f3 st1 where loop: "segmentLoop p n crack st = (f2, f3, st1)"
    by (cases "segmentLoop p n crack st") auto
  note counts = segmentLoop_counts [OF loop]
  from assms n loop obtain slots0 where
    s0: "map_of (fieldAccumulator st1) (ident n, ident p) = Some slots0"
    by (auto simp: crossingPair_def Let_def split: option.splits)
  let ?slots = "setSlot slots0 crackIdx (finalFieldOf f2 f3)"
  from assms n loop s0 have acc: "fieldAccumulator st' =
      AList.update (ident n, ident p) ?slots (fieldAccumulator st1)"
    by (auto simp: crossingPair_def Let_def split: if_splits)
  have m: "map_of (fieldAccumulator st') (ident n, ident p) = Some ?slots"
    by (simp add: acc update_conv')
  obtain c2 c3 where c: "cancellation f2 f3 = (c2, c3)"
    by (cases "cancellation f2 f3") auto
  have lab: "getSlot ?slots crackIdx = (if odd c2 then 2 else if odd c3 then 3 else 1)"
    by (simp add: getSlot_setSlot finalFieldOf_def c odd_iff_mod_2_eq_one)
  from c have c2: "c2 = (if f2 > 0 \<and> f3 > 0 then f2 - min f2 f3 else f2)"
    and c3: "c3 = (if f2 > 0 \<and> f3 > 0 then f3 - min f2 f3 else f3)"
    by (auto simp: cancellation_def split: if_splits)
  have z: "c2 = 0 \<or> c3 = 0" using c2 c3 by (auto simp: min_def)
  from n counts c c2 c3 z m lab show ?thesis by blast
qed

theorem cancellation_final_label_witness:
  "\<exists>st' slots.
     crossingPair case1_nodes (hd case1_cracks) 0 (hd case1_particles) 2 pair_state = Inr st'
     \<and> segmentResults (hd case1_particles) (case1_nodes ! 2) (hd case1_cracks) = [3]
     \<and> cancellation 0 1 = (0, 1)
     \<and> map_of (fieldAccumulator st') (2, 0) = Some slots \<and> getSlot slots 0 = 3"
proof -
  have "\<exists>st'. crossingPair case1_nodes (hd case1_cracks) 0 (hd case1_particles) 2 pair_state = Inr st'"
    by (simp add: crossingPair_def segmentLoop_def segmentStep_def checkCrossing_def triangleArea_def
       finalFieldOf_def cancellation_def getSlot_def setSlot_def push_def mkNode_def case1_nodes_def
       case1_cracks_def case1_particles_def pair_state_def Let_def)
  then obtain st' where
    r: "crossingPair case1_nodes (hd case1_cracks) 0 (hd case1_particles) 2 pair_state = Inr st'" ..
  have f: "find (\<lambda>node. ident node = 2) case1_nodes = Some (case1_nodes ! 2)"
    by (simp add: case1_nodes_def mkNode_def)
  have s: "segmentResults (hd case1_particles) (case1_nodes ! 2) (hd case1_cracks) = [3]"
    by (simp add: segmentResults_def checkCrossing_def triangleArea_def mkNode_def case1_nodes_def
       case1_cracks_def case1_particles_def Let_def)
  have c: "cancellation 0 1 = (0, 1)" by (simp add: cancellation_def)
  have i: "ident (case1_nodes ! 2) = 2" "ident (hd case1_particles) = 0"
    by (simp_all add: case1_nodes_def case1_particles_def mkNode_def)
  from cancellation_final_label [OF r] f s c i
  have "\<exists>slots. map_of (fieldAccumulator st') (2, 0) = Some slots \<and> getSlot slots 0 = 3"
    by auto
  with r s c show ?thesis by blast
qed

section \<open>The consistency pass at one node\<close>

lemma forEach_invariant:
  assumes "forEach xs f s = Inr s'" and "P s"
    and "\<And>a s s'. a \<in> set xs \<Longrightarrow> P s \<Longrightarrow> f a s = Inr s' \<Longrightarrow> P s'"
  shows "P s'"
  using assms
proof (induction xs arbitrary: s)
  case Nil
  then show ?case by simp
next
  case (Cons a xs)
  from Cons.prems(1) obtain s1 where s1: "f a s = Inr s1" and r: "forEach xs f s1 = Inr s'"
    by (auto split: sum.splits)
  have "P s1" using Cons.prems(3) [OF _ Cons.prems(2) s1] by simp
  then show ?case
    by (rule Cons.IH [OF r]) (rule Cons.prems(3), auto)
qed

lemma seeField_loop:
  "forEach pids (seeField acc ci n) seen0 = Inr seen \<Longrightarrow> distinct seen0 \<Longrightarrow>
     distinct seen \<and> Some ` set seen = Some ` set seen0 \<union> seenLabels acc ci n pids"
proof (induction pids arbitrary: seen0)
  case Nil
  then show ?case by (simp add: seenLabels_def)
next
  case (Cons pid pids)
  from Cons.prems(1) obtain s1 where s1: "seeField acc ci n pid seen0 = Inr s1"
    and r: "forEach pids (seeField acc ci n) s1 = Inr seen"
    by (auto split: sum.splits)
  from s1 obtain slots where sl: "map_of acc (ident n, pid) = Some slots"
    and s1': "s1 = setAdd seen0 (getSlot slots ci)"
    by (auto simp: seeField_def split: option.splits)
  have d: "distinct s1" using Cons.prems(2) by (simp add: s1' setAdd_def)
  have "set s1 = insert (getSlot slots ci) (set seen0)" by (auto simp: s1' setAdd_def)
  with Cons.IH [OF r d] sl show ?case
    by (auto simp: seenLabels_def slotOf_def)
qed

lemma slotOf_update:
  "slotOf (AList.update k (setSlot slots i v) acc) k' j =
     (if k' = k then Some (if j = i then v else getSlot slots j) else slotOf acc k' j)"
  by (simp add: slotOf_def update_conv' getSlot_setSlot getSlot_setSlot_other)

lemma remapPair_effect:
  assumes "remapPair ci n from to pid st = Inr st'"
  shows "steps st' = steps st \<and> stepCounter st' = stepCounter st
       \<and> slotOf (fieldAccumulator st) (ident n, pid) ci \<noteq> None
       \<and> (\<forall>k j. slotOf (fieldAccumulator st') k j =
            (if k = (ident n, pid) \<and> j = ci \<and> slotOf (fieldAccumulator st) k j = Some from
             then Some to else slotOf (fieldAccumulator st) k j))"
proof -
  from assms obtain slots where sl: "map_of (fieldAccumulator st) (ident n, pid) = Some slots"
    by (auto simp: remapPair_def split: option.splits)
  show ?thesis
  proof (cases "getSlot slots ci = from")
    case True
    with assms sl have "st' = st\<lparr>fieldAccumulator :=
        AList.update (ident n, pid) (setSlot slots ci to) (fieldAccumulator st)\<rparr>"
      by (simp add: remapPair_def)
    then show ?thesis using sl True by (auto simp: slotOf_update) (auto simp: slotOf_def)
  next
    case False
    with assms sl have "st' = st" by (simp add: remapPair_def)
    then show ?thesis using sl False by (auto simp: slotOf_def)
  qed
qed

lemma remapPair_loop:
  assumes "forEach pids (remapPair ci n from to) st = Inr st'" and "from \<noteq> to"
  shows "steps st' = steps st \<and> stepCounter st' = stepCounter st
       \<and> (\<forall>k j. slotOf (fieldAccumulator st') k j =
            (if k \<in> (\<lambda>pid. (ident n, pid)) ` set pids \<and> j = ci
                \<and> slotOf (fieldAccumulator st) k j = Some from
             then Some to else slotOf (fieldAccumulator st) k j))"
  using assms(1)
proof (induction pids arbitrary: st)
  case Nil
  then show ?case by simp
next
  case (Cons pid pids)
  from Cons.prems obtain s1 where s1: "remapPair ci n from to pid st = Inr s1"
    and r: "forEach pids (remapPair ci n from to) s1 = Inr st'"
    by (auto split: sum.splits)
  note e = remapPair_effect [OF s1]
  note ih = Cons.IH [OF r]
  show ?case
  proof (intro conjI allI)
    show "steps st' = steps st" using e ih by simp
    show "stepCounter st' = stepCounter st" using e ih by simp
    fix k j
    show "slotOf (fieldAccumulator st') k j =
            (if k \<in> (\<lambda>pid. (ident n, pid)) ` set (pid # pids) \<and> j = ci
                \<and> slotOf (fieldAccumulator st) k j = Some from
             then Some to else slotOf (fieldAccumulator st) k j)"
    proof -
      have a: "slotOf (fieldAccumulator s1) k j =
            (if k = (ident n, pid) \<and> j = ci \<and> slotOf (fieldAccumulator st) k j = Some from
             then Some to else slotOf (fieldAccumulator st) k j)"
        using e by blast
      have b: "slotOf (fieldAccumulator st') k j =
            (if k \<in> (\<lambda>pid. (ident n, pid)) ` set pids \<and> j = ci
                \<and> slotOf (fieldAccumulator s1) k j = Some from
             then Some to else slotOf (fieldAccumulator s1) k j)"
        using ih by blast
      show ?thesis unfolding b a using assms(2) by auto
    qed
  qed
qed


lemma Some_image_eq: "Some ` A = Some ` B \<longleftrightarrow> A = B"
  by (simp add: inj_image_eq_iff)

lemma consistencyNode_seen:
  assumes "nodeToParticles (ident n) = Some pids" and "pids \<noteq> []"
    and "consistencyNode nodeToParticles crackIdx n st = Inr st'"
  obtains seen where "forEach pids (seeField (fieldAccumulator st) crackIdx n) [] = Inr seen"
    and "distinct seen"
    and "Some ` set seen = seenLabels (fieldAccumulator st) crackIdx n pids"
proof -
  from assms obtain seen where
    s: "forEach pids (seeField (fieldAccumulator st) crackIdx n) [] = Inr seen"
    by (auto simp: consistencyNode_def split: sum.splits)
  from seeField_loop [OF s] that s show ?thesis by simp
qed

lemma sort_distinct_set:
  "distinct xs \<Longrightarrow> set xs = set ys \<Longrightarrow> distinct ys \<Longrightarrow> sort xs = sort (ys :: int list)"
  by (metis distinct_remdups_id sorted_list_of_set_sort_remdups)

lemma sort_12: "distinct xs \<Longrightarrow> set xs = {1, 2} \<Longrightarrow> sort xs = [1, 2 :: int]"
  using sort_distinct_set [of xs "[1, 2]"] by simp

lemma sort_13: "distinct xs \<Longrightarrow> set xs = {1, 3} \<Longrightarrow> sort xs = [1, 3 :: int]"
  using sort_distinct_set [of xs "[1, 3]"] by simp

lemma sort_23: "distinct xs \<Longrightarrow> set xs = {2, 3} \<Longrightarrow> sort xs = [2, 3 :: int]"
  using sort_distinct_set [of xs "[2, 3]"] by simp

lemma sort_123: "distinct xs \<Longrightarrow> set xs = {1, 2, 3} \<Longrightarrow> sort xs = [1, 2, 3 :: int]"
  using sort_distinct_set [of xs "[1, 2, 3]"] by simp

lemma consistencyNode_remap:
  assumes n2p: "nodeToParticles (ident n) = Some pids" and ne: "pids \<noteq> []"
    and run: "consistencyNode nodeToParticles crackIdx n st = Inr st'"
    and L: "seenLabels (fieldAccumulator st) crackIdx n pids = {Some 1, Some b}"
    and b: "b = 2 \<and> c = 3 \<or> b = 3 \<and> c = 2"
  shows "\<forall>k j. slotOf (fieldAccumulator st') k j =
            (if k \<in> (\<lambda>pid. (ident n, pid)) ` set pids \<and> j = crackIdx
                \<and> slotOf (fieldAccumulator st) k j = Some 1
             then Some c else slotOf (fieldAccumulator st) k j)"
proof -
  from consistencyNode_seen [OF n2p ne run] obtain seen where
    s: "forEach pids (seeField (fieldAccumulator st) crackIdx n) [] = Inr seen"
    and d: "distinct seen"
    and l: "Some ` set seen = seenLabels (fieldAccumulator st) crackIdx n pids" by blast
  from l L have "Some ` set seen = Some ` {1, b}" by simp
  then have se: "set seen = {1, b}" by (simp only: Some_image_eq)
  with d b have so: "sort seen = [1, b]" by (auto simp: sort_12 sort_13)
  from b have ch: "remapChoice [1, b] = (1, c)" by (auto simp: remapChoice_def)
  let ?st1 = "push (consistencyStep (NodeSees (ident n) [1, b]) n [1, b]) st"
  from run n2p ne s so ch obtain st3 where
    r: "forEach pids (remapPair crackIdx n 1 c) ?st1 = Inr st3"
    and st': "fieldAccumulator st' = fieldAccumulator st3"
    by (auto simp: consistencyNode_def Let_def split: sum.splits)
  from b have "(1::int) \<noteq> c" by auto
  note X = remapPair_loop [OF r this, THEN conjunct2, THEN conjunct2, unfolded fieldAccumulator_push]
  show ?thesis unfolding st' by (rule X)
qed

text \<open>
  Claim C3. At a node with at least one connected particle, when the labels seen for the
  crack are exactly \<open>{1, 2}\<close>, every pair of that node labelled 1 for that crack is
  relabelled 3 and every other slot of the accumulator, in particular those labelled 2, keeps
  its value; when they are exactly \<open>{1, 3}\<close>, every pair labelled 1 is relabelled 2
  and every other slot keeps its value; when they are exactly \<open>{2, 3}\<close>, the
  accumulator does not change.
\<close>

theorem consistency_remap:
  assumes n2p: "nodeToParticles (ident n) = Some pids" and ne: "pids \<noteq> []"
    and run: "consistencyNode nodeToParticles crackIdx n st = Inr st'"
  shows "(seenLabels (fieldAccumulator st) crackIdx n pids = {Some 1, Some 2} \<longrightarrow>
           (\<forall>k j. slotOf (fieldAccumulator st') k j =
              (if k \<in> (\<lambda>pid. (ident n, pid)) ` set pids \<and> j = crackIdx
                  \<and> slotOf (fieldAccumulator st) k j = Some 1
               then Some 3 else slotOf (fieldAccumulator st) k j)))
       \<and> (seenLabels (fieldAccumulator st) crackIdx n pids = {Some 1, Some 3} \<longrightarrow>
           (\<forall>k j. slotOf (fieldAccumulator st') k j =
              (if k \<in> (\<lambda>pid. (ident n, pid)) ` set pids \<and> j = crackIdx
                  \<and> slotOf (fieldAccumulator st) k j = Some 1
               then Some 2 else slotOf (fieldAccumulator st) k j)))
       \<and> (seenLabels (fieldAccumulator st) crackIdx n pids = {Some 2, Some 3} \<longrightarrow>
           fieldAccumulator st' = fieldAccumulator st)"
proof (intro conjI impI)
  assume "seenLabels (fieldAccumulator st) crackIdx n pids = {Some 1, Some 2}"
  from consistencyNode_remap [OF n2p ne run this, of 3]
  show "\<forall>k j. slotOf (fieldAccumulator st') k j =
              (if k \<in> (\<lambda>pid. (ident n, pid)) ` set pids \<and> j = crackIdx
                  \<and> slotOf (fieldAccumulator st) k j = Some 1
               then Some 3 else slotOf (fieldAccumulator st) k j)" by simp
next
  assume "seenLabels (fieldAccumulator st) crackIdx n pids = {Some 1, Some 3}"
  from consistencyNode_remap [OF n2p ne run this, of 2]
  show "\<forall>k j. slotOf (fieldAccumulator st') k j =
              (if k \<in> (\<lambda>pid. (ident n, pid)) ` set pids \<and> j = crackIdx
                  \<and> slotOf (fieldAccumulator st) k j = Some 1
               then Some 2 else slotOf (fieldAccumulator st) k j)" by simp
next
  assume L: "seenLabels (fieldAccumulator st) crackIdx n pids = {Some 2, Some 3}"
  from consistencyNode_seen [OF n2p ne run] obtain seen where
    s: "forEach pids (seeField (fieldAccumulator st) crackIdx n) [] = Inr seen"
    and d: "distinct seen"
    and l: "Some ` set seen = seenLabels (fieldAccumulator st) crackIdx n pids" by blast
  from l L have "Some ` set seen = Some ` {2, 3}" by simp
  then have "set seen = {2, 3}" by (simp only: Some_image_eq)
  with d have so: "sort seen = [2, 3]" by (simp add: sort_23)
  from run n2p ne s so show "fieldAccumulator st' = fieldAccumulator st"
    by (auto simp: consistencyNode_def Let_def remapChoice_def)
qed

lemmas consistency_eval =
  consistencyNode_def forEach.simps seeField_def setAdd_def getSlot_def setSlot_def
  remapPair_def remapChoice_def push_def labels_state_def labels_table_def mkNode_def Let_def

theorem consistency_remap_witness:
  "\<exists>s12 s13 s23.
     consistencyNode (labels_table [0, 1]) 0 (mkNode 0 2 2) (labels_state [(0, 1), (1, 2)]) = Inr s12
     \<and> slotOf (fieldAccumulator s12) (0, 0) 0 = Some 3
     \<and> slotOf (fieldAccumulator s12) (0, 1) 0 = Some 2
     \<and> consistencyNode (labels_table [0, 1]) 0 (mkNode 0 2 2) (labels_state [(0, 3), (1, 1)]) = Inr s13
     \<and> slotOf (fieldAccumulator s13) (0, 0) 0 = Some 3
     \<and> slotOf (fieldAccumulator s13) (0, 1) 0 = Some 2
     \<and> consistencyNode (labels_table [0, 1]) 0 (mkNode 0 2 2) (labels_state [(0, 2), (1, 3)]) = Inr s23
     \<and> fieldAccumulator s23 = fieldAccumulator (labels_state [(0, 2), (1, 3)])"
proof -
  let ?n = "mkNode 0 2 2" and ?t = "labels_table [0, 1]"
  have t: "?t (ident ?n) = Some [0, 1]" and ne: "[0, 1 :: int] \<noteq> []"
    by (simp_all add: labels_table_def mkNode_def)
  have "\<exists>s. consistencyNode ?t 0 ?n (labels_state [(0, 1), (1, 2)]) = Inr s"
    by (simp add: consistency_eval)
  then obtain s12 where r12: "consistencyNode ?t 0 ?n (labels_state [(0, 1), (1, 2)]) = Inr s12" ..
  have "\<exists>s. consistencyNode ?t 0 ?n (labels_state [(0, 3), (1, 1)]) = Inr s"
    by (simp add: consistency_eval)
  then obtain s13 where r13: "consistencyNode ?t 0 ?n (labels_state [(0, 3), (1, 1)]) = Inr s13" ..
  have "\<exists>s. consistencyNode ?t 0 ?n (labels_state [(0, 2), (1, 3)]) = Inr s"
    by (simp add: consistency_eval)
  then obtain s23 where r23: "consistencyNode ?t 0 ?n (labels_state [(0, 2), (1, 3)]) = Inr s23" ..
  have l12: "seenLabels (fieldAccumulator (labels_state [(0, 1), (1, 2)])) 0 ?n [0, 1] = {Some 1, Some 2}"
    by (simp add: seenLabels_def slotOf_def getSlot_def labels_state_def mkNode_def)
  have l13: "seenLabels (fieldAccumulator (labels_state [(0, 3), (1, 1)])) 0 ?n [0, 1] = {Some 1, Some 3}"
    by (auto simp: seenLabels_def slotOf_def getSlot_def labels_state_def mkNode_def)
  have l23: "seenLabels (fieldAccumulator (labels_state [(0, 2), (1, 3)])) 0 ?n [0, 1] = {Some 2, Some 3}"
    by (simp add: seenLabels_def slotOf_def getSlot_def labels_state_def mkNode_def)
  have v12: "slotOf (fieldAccumulator (labels_state [(0, 1), (1, 2)])) (0, 0) 0 = Some 1"
    "slotOf (fieldAccumulator (labels_state [(0, 1), (1, 2)])) (0, 1) 0 = Some 2"
    by (simp_all add: slotOf_def getSlot_def labels_state_def)
  have v13: "slotOf (fieldAccumulator (labels_state [(0, 3), (1, 1)])) (0, 0) 0 = Some 3"
    "slotOf (fieldAccumulator (labels_state [(0, 3), (1, 1)])) (0, 1) 0 = Some 1"
    by (simp_all add: slotOf_def getSlot_def labels_state_def)
  from consistency_remap [OF t ne r12] l12
  have a: "\<forall>k j. slotOf (fieldAccumulator s12) k j =
              (if k \<in> (\<lambda>pid. (ident ?n, pid)) ` set [0, 1] \<and> j = 0
                  \<and> slotOf (fieldAccumulator (labels_state [(0, 1), (1, 2)])) k j = Some 1
               then Some 3 else slotOf (fieldAccumulator (labels_state [(0, 1), (1, 2)])) k j)"
    by blast
  have a0: "slotOf (fieldAccumulator s12) (0, 0) 0 = Some 3"
    using a [rule_format, of "(0, 0)" 0] by (simp add: v12 mkNode_def)
  have a1: "slotOf (fieldAccumulator s12) (0, 1) 0 = Some 2"
    using a [rule_format, of "(0, 1)" 0] by (simp add: v12 mkNode_def)
  from consistency_remap [OF t ne r13] l13
  have b: "\<forall>k j. slotOf (fieldAccumulator s13) k j =
              (if k \<in> (\<lambda>pid. (ident ?n, pid)) ` set [0, 1] \<and> j = 0
                  \<and> slotOf (fieldAccumulator (labels_state [(0, 3), (1, 1)])) k j = Some 1
               then Some 2 else slotOf (fieldAccumulator (labels_state [(0, 3), (1, 1)])) k j)"
    by blast
  have b0: "slotOf (fieldAccumulator s13) (0, 0) 0 = Some 3"
    using b [rule_format, of "(0, 0)" 0] by (simp add: v13 mkNode_def)
  have b1: "slotOf (fieldAccumulator s13) (0, 1) 0 = Some 2"
    using b [rule_format, of "(0, 1)" 0] by (simp add: v13 mkNode_def)
  from consistency_remap [OF t ne r23] l23
  have c: "fieldAccumulator s23 = fieldAccumulator (labels_state [(0, 2), (1, 3)])" by blast
  from r12 a0 a1 r13 b0 b1 r23 c show ?thesis by blast
qed

text \<open>
  Claim C4. At a node that sees exactly the labels \<open>{1, 2, 3}\<close> for the crack, the
  accumulator after the node is the accumulator before it, and the steps emitted for the
  node are the report of the sorted labels followed by exactly one warning step.
\<close>

theorem three_way_conflict:
  assumes n2p: "nodeToParticles (ident n) = Some pids" and ne: "pids \<noteq> []"
    and run: "consistencyNode nodeToParticles crackIdx n st = Inr st'"
    and L: "seenLabels (fieldAccumulator st) crackIdx n pids = {Some 1, Some 2, Some 3}"
  shows "fieldAccumulator st' = fieldAccumulator st
       \<and> steps st' = steps st @
           [consistencyStep (NodeSees (ident n) [1, 2, 3]) n [1, 2, 3] (stepCounter st)
              (computeCombinedField (fieldAccumulator st)),
            consistencyStep (Warning (ident n)) n [1, 2, 3] (stepCounter st + 1)
              (computeCombinedField (fieldAccumulator st))]"
proof -
  from consistencyNode_seen [OF n2p ne run] obtain seen where
    s: "forEach pids (seeField (fieldAccumulator st) crackIdx n) [] = Inr seen"
    and d: "distinct seen"
    and l: "Some ` set seen = seenLabels (fieldAccumulator st) crackIdx n pids" by blast
  from l L have "Some ` set seen = Some ` {1, 2, 3}" by simp
  then have "set seen = {1, 2, 3}" by (simp only: Some_image_eq)
  with d have so: "sort seen = [1, 2, 3]" by (simp add: sort_123)
  from run n2p ne s so have "st' =
      push (consistencyStep (Warning (ident n)) n [1, 2, 3])
        (push (consistencyStep (NodeSees (ident n) [1, 2, 3]) n [1, 2, 3]) st)"
    by (simp add: consistencyNode_def Let_def)
  then show ?thesis by (simp add: push_def)
qed

theorem three_way_conflict_witness:
  "\<exists>s. consistencyNode (labels_table [0, 1, 2]) 0 (mkNode 0 2 2)
          (labels_state [(0, 2), (1, 1), (2, 3)]) = Inr s
     \<and> fieldAccumulator s = [((0, 0), [2]), ((0, 1), [1]), ((0, 2), [3])]
     \<and> map description (steps s) = [NodeSees 0 [1, 2, 3], Warning 0]
     \<and> map currentFieldState (steps s) =
         [[((0, 0), 2), ((0, 1), 1), ((0, 2), 3)], [((0, 0), 2), ((0, 1), 1), ((0, 2), 3)]]"
proof -
  let ?n = "mkNode 0 2 2" and ?t = "labels_table [0, 1, 2]"
  let ?st = "labels_state [(0, 2), (1, 1), (2, 3)]"
  have t: "?t (ident ?n) = Some [0, 1, 2]" and ne: "[0, 1, 2 :: int] \<noteq> []"
    by (simp_all add: labels_table_def mkNode_def)
  have "\<exists>s. consistencyNode ?t 0 ?n ?st = Inr s"
    by (simp add: consistency_eval)
  then obtain s where r: "consistencyNode ?t 0 ?n ?st = Inr s" ..
  have l: "seenLabels (fieldAccumulator ?st) 0 ?n [0, 1, 2] = {Some 1, Some 2, Some 3}"
    by (auto simp: seenLabels_def slotOf_def getSlot_def labels_state_def mkNode_def)
  note tw = three_way_conflict [OF t ne r l]
  have a: "fieldAccumulator s = [((0, 0), [2]), ((0, 1), [1]), ((0, 2), [3])]"
    using tw by (simp add: labels_state_def)
  have b: "map description (steps s) = [NodeSees 0 [1, 2, 3], Warning 0]"
    using tw by (simp add: labels_state_def consistencyStep_def plainStep_def mkNode_def)
  have c: "map currentFieldState (steps s) =
         [[((0, 0), 2), ((0, 1), 1), ((0, 2), 3)], [((0, 0), 2), ((0, 1), 1), ((0, 2), 3)]]"
    using tw by (simp add: labels_state_def consistencyStep_def plainStep_def
         computeCombinedField_def combinedValue_def)
  show ?thesis by (rule exI [of _ s]) (simp add: r a b c)
qed

section \<open>The preset \<open>case1\<close>\<close>

text \<open>
  Claim C6 as stated fails: node (2,2) and particle (5,4) lie on the same side of the crack
  \<open>(1,5) \<rightarrow> (9,5)\<close>, so their pair is classified 0, not 3.
\<close>

theorem case1_counterexample:
  "result (checkCrossing (case1_particles ! 0) (case1_nodes ! 0)
      (points (case1_cracks ! 0) ! 0) (points (case1_cracks ! 0) ! 1)) = 0
   \<and> result (checkCrossing (case1_particles ! 0) (case1_nodes ! 0)
      (points (case1_cracks ! 0) ! 0) (points (case1_cracks ! 0) ! 1)) \<noteq> 3"
  by (simp add: case1_particles_def case1_nodes_def case1_cracks_def mkNode_def
        checkCrossing_def triangleArea_def Let_def)

text \<open>
  Claim C6, amended. For the preset \<open>case1\<close> each particle connects to all four
  nodes. The single segment is classified 3 for particle (5,4) with the nodes (2,8) and
  (8,8) and 0 with the nodes (2,2) and (8,2); it is classified 2 for particle (5,6) with
  the nodes (2,2) and (8,2) and 0 with the nodes (2,8) and (8,8). After the crossing phase
  the crossing pairs are labelled 3 and 2 and the other four pairs 1. The nodes (2,2) and
  (8,2) then see the labels [1, 2] and relabel 1 to 3, the nodes (2,8) and (8,8) see
  [1, 3] and relabel 1 to 2; no warning is emitted. In the final snapshot every pair of
  particle (5,4) is labelled 3 and every pair of particle (5,6) is labelled 2.
\<close>

theorem case1_trace:
  "map (map ident \<circ> connectedNodes case1_nodes) case1_particles = [[0, 1, 2, 3], [2, 3, 0, 1]]
   \<and> map_sum id (map stepView) (generateSimulationSteps case1_nodes case1_particles case1_cracks) =
     Inr [(Initialization, None, None, None),
          (ProcessingCrack 1, None, None, None),
          (Checking 0 0 0, Some 0, None, None),
          (Checking 1 0 0, Some 0, None, None),
          (Checking 2 0 0, Some 3, None, None),
          (ResultNode 2 0 3, Some 3, None, None),
          (Checking 3 0 0, Some 3, None, None),
          (ResultNode 3 0 3, Some 3, None, None),
          (Checking 2 1 0, Some 0, None, None),
          (Checking 3 1 0, Some 0, None, None),
          (Checking 0 1 0, Some 2, None, None),
          (ResultNode 0 1 2, Some 2, None, None),
          (Checking 1 1 0, Some 2, None, None),
          (ResultNode 1 1 2, Some 2, None, None),
          (ConsistencyPhase 1, None, None, None),
          (NodeSees 0 [1, 2], None, Some [1, 2], None),
          (Normalizing 0 1 3, None, Some [1, 2], Some (1, 3)),
          (NodeSees 1 [1, 2], None, Some [1, 2], None),
          (Normalizing 1 1 3, None, Some [1, 2], Some (1, 3)),
          (NodeSees 2 [1, 3], None, Some [1, 3], None),
          (Normalizing 2 1 2, None, Some [1, 3], Some (1, 2)),
          (NodeSees 3 [1, 3], None, Some [1, 3], None),
          (Normalizing 3 1 2, None, Some [1, 3], Some (1, 2)),
          (Complete, None, None, None)]
   \<and> map_sum id (\<lambda>tr. currentFieldState (tr ! 14))
       (generateSimulationSteps case1_nodes case1_particles case1_cracks) =
     Inr [((0, 0), 1), ((1, 0), 1), ((2, 0), 3), ((3, 0), 3),
          ((2, 1), 1), ((3, 1), 1), ((0, 1), 2), ((1, 1), 2)]
   \<and> map_sum id (\<lambda>tr. currentFieldState (last tr))
       (generateSimulationSteps case1_nodes case1_particles case1_cracks) =
     Inr [((0, 0), 3), ((1, 0), 3), ((2, 0), 3), ((3, 0), 3),
          ((2, 1), 2), ((3, 1), 2), ((0, 1), 2), ((1, 1), 2)]"
  by code_simp

section \<open>Runs without nodes or without particles\<close>

lemma forEach_skip:
  "(\<And>a s. a \<in> set xs \<Longrightarrow> f a s = Inr s) \<Longrightarrow> forEach xs f s = Inr s"
  by (induction xs) simp_all

lemma connectedNodes_Nil [simp]: "connectedNodes [] p = []"
  by (simp add: connectedNodes_def)

lemma foldl_upd_const:
  "foldl (\<lambda>m a. m(f a \<mapsto> c)) m0 xs k = (if k \<in> f ` set xs then Some c else m0 k)"
  by (induction xs arbitrary: m0) auto

lemma buildParticleToNodes_Nil:
  "p \<in> set particles \<Longrightarrow> buildParticleToNodes [] particles (ident p) = Some []"
  unfolding buildParticleToNodes_def connectedNodes_Nil list.map
  by (simp add: foldl_upd_const)

lemma buildNodeToParticles_no_nodes: "buildNodeToParticles [] particles = Inr Map.empty"
  by (simp add: buildNodeToParticles_def forEach_skip)

lemma buildNodeToParticles_no_particles:
  "\<exists>m. buildNodeToParticles nodes [] = Inr m \<and> (\<forall>n\<in>set nodes. m (ident n) = Some [])"
  by (simp add: buildNodeToParticles_def foldl_upd_const)

lemma initAccumulator_empty:
  assumes "nodes = [] \<or> particles = []"
  shows "initAccumulator (buildParticleToNodes nodes particles) particles N = Inr []"
  using assms
  by (auto simp: initAccumulator_def buildParticleToNodes_Nil intro!: forEach_skip)

lemma crossingPhase_empty:
  assumes "nodes = [] \<or> particles = []"
  shows "crossingPhase nodes particles (buildParticleToNodes nodes particles) crack ci st = Inr st"
  using assms
  by (auto simp: crossingPhase_def buildParticleToNodes_Nil intro!: forEach_skip)

lemma consistency_empty:
  assumes "\<forall>n\<in>set nodes. m (ident n) = Some []"
  shows "forEach nodes (consistencyNode m ci) st = Inr st"
  using assms by (auto simp: consistencyNode_def intro!: forEach_skip)

lemma processCrack_empty:
  assumes "nodes = [] \<or> particles = []" and "\<forall>n\<in>set nodes. m (ident n) = Some []"
  shows "processCrack nodes particles (buildParticleToNodes nodes particles) m (crack, ci) st =
     Inr (push (crackStep (ConsistencyPhase (cident crack + 1)) crack)
            (push (crackStep (ProcessingCrack (cident crack + 1)) crack) st))"
  by (simp add: processCrack_def Let_def crossingPhase_empty [OF assms(1)]
        consistency_empty [OF assms(2)])

lemma cracks_empty_loop:
  assumes "\<And>crack ci st. f (crack, ci) st =
     Inr (push (crackStep (ConsistencyPhase (cident crack + 1)) crack)
            (push (crackStep (ProcessingCrack (cident crack + 1)) crack) st))"
  shows "\<exists>st'. forEach xs f st = Inr st'
     \<and> fieldAccumulator st' = fieldAccumulator st
     \<and> map description (steps st') = map description (steps st) @
          concat (map (\<lambda>(c, i). [ProcessingCrack (cident c + 1), ConsistencyPhase (cident c + 1)]) xs)
     \<and> currentFieldState ` set (steps st') \<subseteq>
          insert (computeCombinedField (fieldAccumulator st)) (currentFieldState ` set (steps st))"
proof (induction xs arbitrary: st)
  case Nil
  then show ?case by auto
next
  case (Cons a xs)
  obtain crack ci where a: "a = (crack, ci)" by (cases a)
  let ?s1 = "push (crackStep (ConsistencyPhase (cident crack + 1)) crack)
            (push (crackStep (ProcessingCrack (cident crack + 1)) crack) st)"
  from Cons.IH [of ?s1] obtain st' where r: "forEach xs f ?s1 = Inr st'"
    and acc: "fieldAccumulator st' = fieldAccumulator ?s1"
    and d: "map description (steps st') = map description (steps ?s1) @
          concat (map (\<lambda>(c, i). [ProcessingCrack (cident c + 1), ConsistencyPhase (cident c + 1)]) xs)"
    and c: "currentFieldState ` set (steps st') \<subseteq>
          insert (computeCombinedField (fieldAccumulator ?s1)) (currentFieldState ` set (steps ?s1))"
    by blast
  have s1: "map description (steps ?s1) = map description (steps st) @
      [ProcessingCrack (cident crack + 1), ConsistencyPhase (cident crack + 1)]"
    by (simp add: push_def crackStep_def plainStep_def)
  have s2: "currentFieldState ` set (steps ?s1) \<subseteq>
      insert (computeCombinedField (fieldAccumulator st)) (currentFieldState ` set (steps st))"
    by (auto simp: push_def crackStep_def plainStep_def)
  have "forEach (a # xs) f st = Inr st'" by (simp add: a assms r)
  moreover have "fieldAccumulator st' = fieldAccumulator st" using acc by simp
  moreover have "map description (steps st') = map description (steps st) @
          concat (map (\<lambda>(c, i). [ProcessingCrack (cident c + 1), ConsistencyPhase (cident c + 1)]) (a # xs))"
    by (simp add: d s1 a)
  moreover have "currentFieldState ` set (steps st') \<subseteq>
          insert (computeCombinedField (fieldAccumulator st)) (currentFieldState ` set (steps st))"
    using c s2 by auto
  ultimately show ?case by blast
qed

lemma concat_zip_fst:
  "length ys = length xs \<Longrightarrow>
     concat (map (\<lambda>(c, i). g c) (zip xs ys)) = concat (map g xs)"
  by (induction xs ys rule: list_induct2') auto

text \<open>
  Claim C7 as stated fails when there is a crack: the start of a crack and the start of its
  consistency phase are recorded whether or not there is any pair.
\<close>

theorem empty_input_counterexample:
  "map_sum id (map description) (generateSimulationSteps [] [] case1_cracks) =
     Inr [Initialization, ProcessingCrack 1, ConsistencyPhase 1, Complete]
   \<and> map_sum id (map description) (generateSimulationSteps [] [] case1_cracks) \<noteq>
     Inr [Initialization, Complete]"
  by code_simp

text \<open>
  Claim C7, amended. With no nodes or no particles the run succeeds. Its trace is the
  initialization step, then for each crack in order the step that starts the crack and the
  step that starts its consistency phase, then the completion step: there is no
  per-segment step, no result step, and no report, warning or normalization step of a
  node. Every snapshot is empty. With no crack either, the trace is exactly the
  initialization step and the completion step.
\<close>

theorem empty_input_trace:
  assumes "nodes = [] \<or> particles = []"
  shows "\<exists>trace. generateSimulationSteps nodes particles cracks = Inr trace
     \<and> map description trace =
         Initialization
         # concat (map (\<lambda>c. [ProcessingCrack (cident c + 1), ConsistencyPhase (cident c + 1)]) cracks)
         @ [Complete]
     \<and> (\<forall>s\<in>set trace. currentFieldState s = [])
     \<and> (cracks = [] \<longrightarrow> map description trace = [Initialization, Complete])"
proof -
  let ?p2n = "buildParticleToNodes nodes particles"
  from assms buildNodeToParticles_no_nodes buildNodeToParticles_no_particles [of nodes]
  obtain m where m: "buildNodeToParticles nodes particles = Inr m"
    and me: "\<forall>n\<in>set nodes. m (ident n) = Some []"
    by auto
  note ia = initAccumulator_empty [OF assms, of "length cracks"]
  let ?st0 = "push (plainStep Initialization) \<lparr>steps = [], stepCounter = 0, fieldAccumulator = []\<rparr>"
  from cracks_empty_loop [of "processCrack nodes particles ?p2n m" "zip cracks [0..<length cracks]" ?st0]
    processCrack_empty [OF assms me]
  obtain st' where r: "forEach (zip cracks [0..<length cracks])
        (processCrack nodes particles ?p2n m) ?st0 = Inr st'"
    and acc: "fieldAccumulator st' = fieldAccumulator ?st0"
    and d: "map description (steps st') = map description (steps ?st0) @
          concat (map (\<lambda>(c, i). [ProcessingCrack (cident c + 1), ConsistencyPhase (cident c + 1)])
            (zip cracks [0..<length cracks]))"
    and c: "currentFieldState ` set (steps st') \<subseteq>
          insert (computeCombinedField (fieldAccumulator ?st0)) (currentFieldState ` set (steps ?st0))"
    by blast
  let ?trace = "steps (push (plainStep Complete) st')"
  have g: "generateSimulationSteps nodes particles cracks = Inr ?trace"
    by (simp add: generateSimulationSteps_def Let_def m ia r)
  have d': "map description ?trace =
         Initialization
         # concat (map (\<lambda>c. [ProcessingCrack (cident c + 1), ConsistencyPhase (cident c + 1)]) cracks)
         @ [Complete]"
    using d by (simp add: push_def plainStep_def concat_zip_fst)
  have c0: "currentFieldState ` set (steps st') \<subseteq> {[]}"
    using c by (auto simp: push_def plainStep_def computeCombinedField_def)
  have c': "\<forall>s\<in>set ?trace. currentFieldState s = []"
    using c0 acc by (auto simp: push_def plainStep_def computeCombinedField_def)
  from g d' c' show ?thesis by auto
qed

theorem empty_input_trace_witness:
  "(case1_nodes = [] \<or> ([] :: Particle list) = [])
   \<and> map_sum id (map description) (generateSimulationSteps case1_nodes [] case1_cracks) =
       Inr [Initialization, ProcessingCrack 1, ConsistencyPhase 1, Complete]
   \<and> map_sum id (map currentFieldState) (generateSimulationSteps case1_nodes [] case1_cracks) =
       Inr [[], [], [], []]
   \<and> map_sum id (map description) (generateSimulationSteps [] case1_particles []) =
       Inr [Initialization, Complete]"
proof -
  from empty_input_trace [of case1_nodes "[]" case1_cracks]
  obtain t1 where a: "generateSimulationSteps case1_nodes [] case1_cracks = Inr t1"
    and b: "map description t1 = [Initialization, ProcessingCrack 1, ConsistencyPhase 1, Complete]"
    and c: "\<forall>s\<in>set t1. currentFieldState s = []"
    by (auto simp: case1_cracks_def)
  have "length t1 = 4" using arg_cong [OF b, of length] by simp
  with c have c': "map currentFieldState t1 = [[], [], [], []]"
    by (auto simp: length_Suc_conv numeral_eq_Suc)
  from empty_input_trace [of "[]" case1_particles "[]"]
  obtain t2 where d: "generateSimulationSteps [] case1_particles [] = Inr t2"
    and e: "map description t2 = [Initialization, Complete]"
    by auto
  show ?thesis by (simp add: a b c' d e)
qed

section \<open>The run returns a trace\<close>

text \<open>
  The tables built by the connectivity pass make every later lookup succeed, provided that
  no two particles share an identity: a particle's entry in \<open>particleToNodes\<close> is
  then its own list of connected nodes, and the accumulator has an entry for every linked
  pair.
\<close>

lemma forEach_total:
  assumes "P s" and "\<And>a s. a \<in> set xs \<Longrightarrow> P s \<Longrightarrow> \<exists>s'. f a s = Inr s' \<and> P s'"
  shows "\<exists>s'. forEach xs f s = Inr s' \<and> P s'"
  using assms
proof (induction xs arbitrary: s)
  case Nil
  then show ?case by simp
next
  case (Cons a xs)
  from Cons.prems(2) [of a s] Cons.prems(1) obtain s1 where s1: "f a s = Inr s1" and p1: "P s1"
    by auto
  have "\<exists>s'. forEach xs f s1 = Inr s' \<and> P s'"
    by (rule Cons.IH [OF p1]) (rule Cons.prems(2), auto)
  with s1 show ?case by simp
qed

lemma set_connectedNodes: "set (connectedNodes nodes p) \<subseteq> set nodes"
  by (auto simp: connectedNodes_def dest: in_set_takeD)

lemma linked_node: "linked nodes particles nid pid \<Longrightarrow> nid \<in> ident ` set nodes"
  using set_connectedNodes by (fastforce simp: linked_def)

lemma pushParticle_step:
  assumes "dom m = ident ` set nodes"
    and "\<forall>nid pids pid. m nid = Some pids \<longrightarrow> pid \<in> set pids \<longrightarrow> linked nodes particles nid pid"
    and "p \<in> set particles" and "a \<in> set (connectedNodes nodes p)"
  shows "\<exists>m'. pushParticle (ident p) a m = Inr m' \<and> dom m' = ident ` set nodes
     \<and> (\<forall>nid pids pid. m' nid = Some pids \<longrightarrow> pid \<in> set pids \<longrightarrow> linked nodes particles nid pid)"
proof -
  from assms(4) set_connectedNodes have "ident a \<in> ident ` set nodes" by blast
  with assms(1) obtain ps where ps: "m (ident a) = Some ps" by blast
  have l: "linked nodes particles (ident a) (ident p)"
    using assms(3,4) by (auto simp: linked_def)
  let ?m = "m(ident a \<mapsto> ps @ [ident p])"
  have "pushParticle (ident p) a m = Inr ?m" by (simp add: pushParticle_def ps)
  moreover have "dom ?m = ident ` set nodes" using assms(1) ps by auto
  moreover have "\<forall>nid pids pid. ?m nid = Some pids \<longrightarrow> pid \<in> set pids \<longrightarrow>
      linked nodes particles nid pid"
    using assms(2) ps l by (auto split: if_splits)
  ultimately show ?thesis by blast
qed

lemma buildNodeToParticles_total:
  "\<exists>m. buildNodeToParticles nodes particles = Inr m \<and> dom m = ident ` set nodes
     \<and> (\<forall>nid pids pid. m nid = Some pids \<longrightarrow> pid \<in> set pids \<longrightarrow> linked nodes particles nid pid)"
  unfolding buildNodeToParticles_def
proof (rule forEach_total, goal_cases)
  case 1
  show ?case by (auto simp: foldl_upd_const dom_def split: if_splits)
next
  case (2 p m)
  show ?case
  proof (rule forEach_total, goal_cases)
    case 1
    from 2(2) show ?case .
  next
    case (2 a m')
    from 2(2) have d: "dom m' = ident ` set nodes"
      and l: "\<forall>nid pids pid. m' nid = Some pids \<longrightarrow> pid \<in> set pids \<longrightarrow>
                linked nodes particles nid pid" by blast+
    from pushParticle_step [OF d l \<open>p \<in> set particles\<close> 2(1)] show ?case .
  qed
qed

lemma foldl_upd_other:
  "k \<notin> f ` set xs \<Longrightarrow> foldl (\<lambda>m a. m(f a \<mapsto> g a)) m0 xs k = m0 k"
  by (induction xs arbitrary: m0) auto

lemma foldl_upd_distinct:
  "distinct (map f xs) \<Longrightarrow> a \<in> set xs \<Longrightarrow>
     foldl (\<lambda>m a. m(f a \<mapsto> g a)) m0 xs (f a) = Some (g a)"
proof (induction xs arbitrary: m0)
  case Nil
  then show ?case by simp
next
  case (Cons b xs)
  show ?case
  proof (cases "a \<in> set xs")
    case True
    with Cons show ?thesis by simp
  next
    case False
    with Cons.prems have ab: "a = b" and "f a \<notin> f ` set xs" by auto
    have "foldl (\<lambda>m a. m(f a \<mapsto> g a)) m0 (b # xs) (f a) =
        foldl (\<lambda>m a. m(f a \<mapsto> g a)) (m0(f a \<mapsto> g a)) xs (f a)"
      by (simp only: foldl.simps ab)
    also have "\<dots> = (m0(f a \<mapsto> g a)) (f a)"
      by (rule foldl_upd_other) fact
    also have "\<dots> = Some (g a)" by simp
    finally show ?thesis .
  qed
qed

lemma buildParticleToNodes_lookup:
  "distinct (map ident particles) \<Longrightarrow> p \<in> set particles \<Longrightarrow>
     buildParticleToNodes nodes particles (ident p) = Some (map ident (connectedNodes nodes p))"
  unfolding buildParticleToNodes_def by (rule foldl_upd_distinct)

lemma set_alist_update: "set (AList.update k v al) \<subseteq> insert (k, v) (set al)"
  by (induction al) auto

lemma initPair_loop:
  "\<exists>acc'. forEach nodeIds (initPair N p) acc = Inr acc'
     \<and> dom (map_of acc') = dom (map_of acc) \<union> (\<lambda>nid. (nid, ident p)) ` set nodeIds
     \<and> set acc' \<subseteq> set acc \<union> {(k, slots). slots = replicate N 1}"
proof (induction nodeIds arbitrary: acc)
  case Nil
  then show ?case by simp
next
  case (Cons nid nodeIds)
  let ?acc1 = "AList.update (nid, ident p) (replicate N 1) acc"
  from Cons.IH [of ?acc1] obtain acc' where r: "forEach nodeIds (initPair N p) ?acc1 = Inr acc'"
    and d: "dom (map_of acc') = dom (map_of ?acc1) \<union> (\<lambda>nid. (nid, ident p)) ` set nodeIds"
    and s: "set acc' \<subseteq> set ?acc1 \<union> {(k, slots). slots = replicate N 1}" by blast
  have "set ?acc1 \<subseteq> insert ((nid, ident p), replicate N 1) (set acc)"
    by (rule set_alist_update)
  with s have s': "set acc' \<subseteq> set acc \<union> {(k, slots). slots = replicate N 1}" by auto
  have "forEach (nid # nodeIds) (initPair N p) acc = Inr acc'"
    by (simp add: initPair_def r)
  moreover have "dom (map_of acc') = dom (map_of acc) \<union> (\<lambda>nid. (nid, ident p)) ` set (nid # nodeIds)"
    by (simp add: d update_conv')
  ultimately show ?case using s' by blast
qed

lemma linked_Cons:
  "linked nodes (p # ps) nid pid \<longleftrightarrow>
     (ident p = pid \<and> nid \<in> ident ` set (connectedNodes nodes p)) \<or> linked nodes ps nid pid"
  by (auto simp: linked_def)

lemma initAccumulator_loop:
  assumes "\<forall>p\<in>set ps. p2n (ident p) = Some (map ident (connectedNodes nodes p))"
  shows "\<exists>acc'. forEach ps
            (\<lambda>p acc. case p2n (ident p) of None \<Rightarrow> Inl TypeError
                      | Some nodeIds \<Rightarrow> forEach nodeIds (initPair N p) acc) acc = Inr acc'
     \<and> dom (map_of acc') = dom (map_of acc) \<union> {(nid, pid). linked nodes ps nid pid}
     \<and> set acc' \<subseteq> set acc \<union> {(k, slots). slots = replicate N 1}"
  using assms
proof (induction ps arbitrary: acc)
  case Nil
  then show ?case by (simp add: linked_def)
next
  case (Cons p ps)
  let ?F = "\<lambda>p acc. case p2n (ident p) of None \<Rightarrow> Inl TypeError
                      | Some nodeIds \<Rightarrow> forEach nodeIds (initPair N p) acc"
  from Cons.prems have p: "p2n (ident p) = Some (map ident (connectedNodes nodes p))" by simp
  from initPair_loop [of "map ident (connectedNodes nodes p)" N p acc] obtain acc1 where
    r1: "forEach (map ident (connectedNodes nodes p)) (initPair N p) acc = Inr acc1"
    and d1: "dom (map_of acc1) = dom (map_of acc) \<union>
        (\<lambda>nid. (nid, ident p)) ` set (map ident (connectedNodes nodes p))"
    and s1: "set acc1 \<subseteq> set acc \<union> {(k, slots). slots = replicate N 1}" by blast
  have ihp: "\<forall>p\<in>set ps. p2n (ident p) = Some (map ident (connectedNodes nodes p))"
    using Cons.prems by simp
  from Cons.IH [OF ihp, of acc1] obtain acc' where r: "forEach ps ?F acc1 = Inr acc'"
    and d: "dom (map_of acc') = dom (map_of acc1) \<union> {(nid, pid). linked nodes ps nid pid}"
    and s: "set acc' \<subseteq> set acc1 \<union> {(k, slots). slots = replicate N 1}" by blast
  have "forEach (p # ps) ?F acc = Inr acc'" by (simp add: p r1 r)
  moreover have "dom (map_of acc') = dom (map_of acc) \<union> {(nid, pid). linked nodes (p # ps) nid pid}"
    unfolding d d1 by (auto simp: linked_Cons)
  moreover have "set acc' \<subseteq> set acc \<union> {(k, slots). slots = replicate N 1}"
    using s s1 by auto
  ultimately show ?case by blast
qed

lemma initAccumulator_total:
  assumes "distinct (map ident particles)"
  shows "\<exists>acc. initAccumulator (buildParticleToNodes nodes particles) particles N = Inr acc
     \<and> dom (map_of acc) = {(nid, pid). linked nodes particles nid pid}
     \<and> (\<forall>(k, slots)\<in>set acc. slots = replicate N 1)"
proof -
  have "\<forall>p\<in>set particles. buildParticleToNodes nodes particles (ident p) =
      Some (map ident (connectedNodes nodes p))"
    using assms by (simp add: buildParticleToNodes_lookup)
  from initAccumulator_loop [OF this, of N "[]"] obtain acc where
    r: "initAccumulator (buildParticleToNodes nodes particles) particles N = Inr acc"
    and d: "dom (map_of acc) = dom (map_of []) \<union> {(nid, pid). linked nodes particles nid pid}"
    and s: "set acc \<subseteq> set [] \<union> {(k, slots). slots = replicate N 1}"
    by (auto simp: initAccumulator_def)
  from d have "dom (map_of acc) = {(nid, pid). linked nodes particles nid pid}" by simp
  moreover from s have "\<forall>(k, slots)\<in>set acc. slots = replicate N 1" by auto
  ultimately show ?thesis using r by blast
qed

lemma find_ident:
  assumes "nodeId \<in> ident ` set nodes"
  obtains n where "find (\<lambda>node. ident node = nodeId) nodes = Some n" and "ident n = nodeId"
proof (cases "find (\<lambda>node. ident node = nodeId) nodes")
  case None
  with assms show ?thesis by (auto simp: find_None_iff)
next
  case (Some n)
  then have "ident n = nodeId" by (auto simp: find_Some_iff)
  with Some that show ?thesis by blast
qed

lemma segmentLoop_acc:
  "fieldAccumulator (snd (snd (segmentLoop p n crack st))) = fieldAccumulator st"
  using segmentLoop_counts [of p n crack st] by (cases "segmentLoop p n crack st") auto

lemma dom_alist_update:
  "k \<in> dom (map_of al) \<Longrightarrow> dom (map_of (AList.update k v al)) = dom (map_of al)"
  by (auto simp: update_conv')

lemma crossingPair_total:
  assumes "nodeId \<in> ident ` set nodes"
    and "(nodeId, ident p) \<in> dom (map_of (fieldAccumulator st))"
  shows "\<exists>st'. crossingPair nodes crack ci p nodeId st = Inr st'
     \<and> dom (map_of (fieldAccumulator st')) = dom (map_of (fieldAccumulator st))"
proof -
  from find_ident [OF assms(1)] obtain n where
    n: "find (\<lambda>node. ident node = nodeId) nodes = Some n" and i: "ident n = nodeId" by blast
  obtain f2 f3 st1 where loop: "segmentLoop p n crack st = (f2, f3, st1)"
    by (cases "segmentLoop p n crack st") auto
  from segmentLoop_counts [OF loop] have a1: "fieldAccumulator st1 = fieldAccumulator st" by simp
  from assms(2) a1 i obtain slots where
    sl: "map_of (fieldAccumulator st1) (ident n, ident p) = Some slots" by auto
  have k: "(ident n, ident p) \<in> dom (map_of (fieldAccumulator st1))" using sl by blast
  have "\<exists>st'. crossingPair nodes crack ci p nodeId st = Inr st'
     \<and> dom (map_of (fieldAccumulator st')) = dom (map_of (fieldAccumulator st1))"
    by (simp add: crossingPair_def n loop sl Let_def dom_alist_update [OF k])
  then show ?thesis by (simp add: a1)
qed

lemma crossingPhase_total:
  assumes "\<forall>p\<in>set particles. \<exists>L. p2n (ident p) = Some L
             \<and> (\<forall>nid\<in>set L. nid \<in> ident ` set nodes \<and> (nid, ident p) \<in> K)"
    and "dom (map_of (fieldAccumulator st)) = K"
  shows "\<exists>st'. crossingPhase nodes particles p2n crack ci st = Inr st'
     \<and> dom (map_of (fieldAccumulator st')) = K"
  unfolding crossingPhase_def
proof (rule forEach_total [where P = "\<lambda>st. dom (map_of (fieldAccumulator st)) = K"], goal_cases)
  case 1
  from assms(2) show ?case .
next
  case (2 p s)
  from assms(1) 2(1) obtain L where L: "p2n (ident p) = Some L"
    and Lk: "\<forall>nid\<in>set L. nid \<in> ident ` set nodes \<and> (nid, ident p) \<in> K" by blast
  have "\<exists>s'. forEach L (crossingPair nodes crack ci p) s = Inr s'
      \<and> dom (map_of (fieldAccumulator s')) = K"
  proof (rule forEach_total [where P = "\<lambda>st. dom (map_of (fieldAccumulator st)) = K"], goal_cases)
    case 1
    from 2(2) show ?case .
  next
    case (2 nid s2)
    from Lk 2(1) have a: "nid \<in> ident ` set nodes" and "(nid, ident p) \<in> K" by blast+
    with 2(2) have b: "(nid, ident p) \<in> dom (map_of (fieldAccumulator s2))" by simp
    from crossingPair_total [OF a b, of crack ci] 2(2) show ?case by auto
  qed
  then show ?case by (simp add: L)
qed

lemma seeField_total:
  "\<forall>pid\<in>set pids. (ident n, pid) \<in> dom (map_of acc) \<Longrightarrow>
     \<exists>seen'. forEach pids (seeField acc ci n) seen = Inr seen'"
proof (induction pids arbitrary: seen)
  case Nil
  then show ?case by simp
next
  case (Cons pid pids)
  from Cons.prems obtain slots where "map_of acc (ident n, pid) = Some slots" by auto
  then have "seeField acc ci n pid seen = Inr (setAdd seen (getSlot slots ci))"
    by (simp add: seeField_def)
  moreover from Cons.prems have "\<forall>pid\<in>set pids. (ident n, pid) \<in> dom (map_of acc)" by simp
  from Cons.IH [OF this, of "setAdd seen (getSlot slots ci)"]
  obtain seen' where "forEach pids (seeField acc ci n) (setAdd seen (getSlot slots ci)) = Inr seen'"
    by blast
  ultimately show ?case by simp
qed

lemma remapPair_total:
  assumes "(ident n, pid) \<in> dom (map_of (fieldAccumulator st))"
  shows "\<exists>st'. remapPair ci n from to pid st = Inr st'
     \<and> dom (map_of (fieldAccumulator st')) = dom (map_of (fieldAccumulator st))"
proof -
  from assms obtain slots where sl: "map_of (fieldAccumulator st) (ident n, pid) = Some slots"
    by auto
  show ?thesis by (simp add: remapPair_def sl dom_alist_update [OF assms])
qed

lemma consistencyNode_total:
  assumes "n2p (ident n) = Some pids"
    and "\<forall>pid\<in>set pids. (ident n, pid) \<in> K"
    and "dom (map_of (fieldAccumulator st)) = K"
  shows "\<exists>st'. consistencyNode n2p ci n st = Inr st'
     \<and> dom (map_of (fieldAccumulator st')) = K"
proof (cases "pids = []")
  case True
  with assms show ?thesis by (simp add: consistencyNode_def)
next
  case False
  from assms(2,3) have "\<forall>pid\<in>set pids. (ident n, pid) \<in> dom (map_of (fieldAccumulator st))"
    by simp
  from seeField_total [OF this, of ci "[]"] obtain seen where
    seen: "forEach pids (seeField (fieldAccumulator st) ci n) [] = Inr seen" by blast
  have remap: "\<exists>s'. forEach pids (remapPair ci n a b) s = Inr s'
      \<and> dom (map_of (fieldAccumulator s')) = K"
    if "dom (map_of (fieldAccumulator s)) = K" for s a b
  proof (rule forEach_total [where P = "\<lambda>st. dom (map_of (fieldAccumulator st)) = K"], goal_cases)
    case 1
    from that show ?case .
  next
    case (2 pid s2)
    with assms(2) have "(ident n, pid) \<in> dom (map_of (fieldAccumulator s2))" by simp
    from remapPair_total [OF this, of ci a b] 2(2) show ?case by auto
  qed
  let ?so = "sort seen"
  let ?s1 = "push (consistencyStep (NodeSees (ident n) ?so) n ?so) st"
  have d1: "dom (map_of (fieldAccumulator ?s1)) = K" using assms(3) by simp
  obtain a b where ch: "remapChoice ?so = (a, b)" by (cases "remapChoice ?so") auto
  from remap [OF d1, of a b] obtain s3 where
    s3: "forEach pids (remapPair ci n a b) ?s1 = Inr s3"
    and d3: "dom (map_of (fieldAccumulator s3)) = K" by blast
  show ?thesis
  proof (cases "length seen = 2")
    case True
    show ?thesis
    proof (cases "a = - 1")
      case True
      with \<open>length seen = 2\<close> assms(1,3) False seen ch show ?thesis
        by (simp add: consistencyNode_def Let_def)
    next
      case False
      with \<open>length seen = 2\<close> assms(1) \<open>pids \<noteq> []\<close> seen ch s3 d3 show ?thesis
        by (simp add: consistencyNode_def Let_def)
    qed
  next
    case False
    with assms(1,3) \<open>pids \<noteq> []\<close> seen show ?thesis
      by (simp add: consistencyNode_def Let_def)
  qed
qed

lemma processCrack_total:
  assumes "\<forall>p\<in>set particles. \<exists>L. p2n (ident p) = Some L
             \<and> (\<forall>nid\<in>set L. nid \<in> ident ` set nodes \<and> (nid, ident p) \<in> K)"
    and "\<forall>n\<in>set nodes. \<exists>pids. n2p (ident n) = Some pids \<and> (\<forall>pid\<in>set pids. (ident n, pid) \<in> K)"
    and "dom (map_of (fieldAccumulator st)) = K"
  shows "\<exists>st'. processCrack nodes particles p2n n2p (crack, ci) st = Inr st'
     \<and> dom (map_of (fieldAccumulator st')) = K"
proof -
  let ?s1 = "push (crackStep (ProcessingCrack (cident crack + 1)) crack) st"
  have "dom (map_of (fieldAccumulator ?s1)) = K" using assms(3) by simp
  from crossingPhase_total [OF assms(1) this, of crack ci] obtain s2 where
    s2: "crossingPhase nodes particles p2n crack ci ?s1 = Inr s2"
    and d2: "dom (map_of (fieldAccumulator s2)) = K" by blast
  let ?s3 = "push (crackStep (ConsistencyPhase (cident crack + 1)) crack) s2"
  have "\<exists>st'. forEach nodes (consistencyNode n2p ci) ?s3 = Inr st'
      \<and> dom (map_of (fieldAccumulator st')) = K"
  proof (rule forEach_total [where P = "\<lambda>st. dom (map_of (fieldAccumulator st)) = K"], goal_cases)
    case 1
    from d2 show ?case by simp
  next
    case (2 n s)
    from assms(2) 2(1) obtain pids where "n2p (ident n) = Some pids"
      and "\<forall>pid\<in>set pids. (ident n, pid) \<in> K" by blast
    then show ?case by (rule consistencyNode_total) (rule 2(2))
  qed
  then show ?thesis by (simp add: processCrack_def Let_def s2)
qed

lemma run_total:
  assumes "distinct (map ident particles)"
  shows "\<exists>trace. generateSimulationSteps nodes particles cracks = Inr trace"
proof -
  let ?K = "{(nid, pid). linked nodes particles nid pid}"
  let ?p2n = "buildParticleToNodes nodes particles"
  from buildNodeToParticles_total [of nodes particles] obtain n2p where
    n2p: "buildNodeToParticles nodes particles = Inr n2p"
    and dn: "dom n2p = ident ` set nodes"
    and ln: "\<forall>nid pids pid. n2p nid = Some pids \<longrightarrow> pid \<in> set pids \<longrightarrow>
               linked nodes particles nid pid" by blast
  from initAccumulator_total [OF assms, of nodes "length cracks"] obtain acc where
    acc: "initAccumulator ?p2n particles (length cracks) = Inr acc"
    and da: "dom (map_of acc) = ?K" by blast
  have A: "\<forall>p\<in>set particles. \<exists>L. ?p2n (ident p) = Some L
             \<and> (\<forall>nid\<in>set L. nid \<in> ident ` set nodes \<and> (nid, ident p) \<in> ?K)"
  proof
    fix p assume p: "p \<in> set particles"
    have "?p2n (ident p) = Some (map ident (connectedNodes nodes p))"
      by (rule buildParticleToNodes_lookup [OF assms p])
    moreover have "\<forall>nid\<in>set (map ident (connectedNodes nodes p)).
        nid \<in> ident ` set nodes \<and> (nid, ident p) \<in> ?K"
      using p set_connectedNodes [of nodes p] by (auto simp: linked_def)
    ultimately show "\<exists>L. ?p2n (ident p) = Some L
             \<and> (\<forall>nid\<in>set L. nid \<in> ident ` set nodes \<and> (nid, ident p) \<in> ?K)" by blast
  qed
  have B: "\<forall>n\<in>set nodes. \<exists>pids. n2p (ident n) = Some pids
             \<and> (\<forall>pid\<in>set pids. (ident n, pid) \<in> ?K)"
  proof
    fix n assume "n \<in> set nodes"
    with dn obtain pids where "n2p (ident n) = Some pids" by blast
    with ln show "\<exists>pids. n2p (ident n) = Some pids \<and> (\<forall>pid\<in>set pids. (ident n, pid) \<in> ?K)"
      by auto
  qed
  let ?st0 = "push (plainStep Initialization)
     \<lparr>steps = [], stepCounter = 0, fieldAccumulator = acc\<rparr>"
  have "\<exists>st'. forEach (zip cracks [0..<length cracks])
          (processCrack nodes particles ?p2n n2p) ?st0 = Inr st'
      \<and> dom (map_of (fieldAccumulator st')) = ?K"
  proof (rule forEach_total [where P = "\<lambda>st. dom (map_of (fieldAccumulator st)) = ?K"], goal_cases)
    case 1
    from da show ?case by simp
  next
    case (2 a s)
    obtain crack ci where a: "a = (crack, ci)" by (cases a)
    from processCrack_total [OF A B 2(2), of crack ci] show ?case by (simp add: a)
  qed
  then obtain st' where "forEach (zip cracks [0..<length cracks])
          (processCrack nodes particles ?p2n n2p) ?st0 = Inr st'" by blast
  then show ?thesis by (simp add: generateSimulationSteps_def Let_def n2p acc)
qed

section \<open>What every state of the run satisfies\<close>

lemma slotsOK_replicate: "slotsOK cracks (replicate (length cracks) 1)"
  by (auto simp: slotsOK_def)

lemma slotsOK_setSlot:
  assumes "slotsOK cracks slots" and "ci < length cracks" and "v \<in> {1, 2, 3}"
    and "length (points (cracks ! ci)) < 2 \<longrightarrow> v = 1"
  shows "slotsOK cracks (setSlot slots ci v)"
proof -
  from assms(1,2) have e: "setSlot slots ci v = slots[ci := v]"
    by (simp add: setSlot_def slotsOK_def)
  have "set (slots[ci := v]) \<subseteq> insert v (set slots)" by (rule set_update_subset_insert)
  with assms show ?thesis unfolding e slotsOK_def
    by (auto simp: nth_list_update)
qed

lemma slotsOK_getSlot:
  "slotsOK cracks slots \<Longrightarrow> ci < length cracks \<Longrightarrow> length (points (cracks ! ci)) < 2 \<Longrightarrow>
     getSlot slots ci = 1"
  by (simp add: slotsOK_def getSlot_def)

lemma snapshot_OK:
  assumes "accOK cracks K acc"
  shows "\<forall>(k, v)\<in>set (computeCombinedField acc). \<exists>slots. slotsOK cracks slots \<and> v = combinedValue slots"
  using assms by (fastforce simp: computeCombinedField_def accOK_def)

lemma map_of_combined:
  "map_of (computeCombinedField acc) key = map_option combinedValue (map_of acc key)"
  by (induction acc) (auto simp: computeCombinedField_def)

lemma accOK_update:
  assumes "accOK cracks K acc" and "slotsOK cracks slots" and "key \<in> K"
  shows "accOK cracks K (AList.update key slots acc)"
  using assms set_alist_update [of key slots acc]
  by (auto simp: accOK_def update_conv')

lemma accOK_lookup:
  "accOK cracks K acc \<Longrightarrow> map_of acc key = Some slots \<Longrightarrow> slotsOK cracks slots \<and> key \<in> K"
  by (auto simp: accOK_def dest: map_of_SomeD)

lemma stateOK_acc: "stateOK cracks K R base st \<Longrightarrow> accOK cracks K (fieldAccumulator st)"
  by (simp add: stateOK_def)

lemma stateOK_push:
  assumes "stateOK cracks K R base st"
    and "currentFieldState (mk (stepCounter st) (computeCombinedField (fieldAccumulator st))) =
           computeCombinedField (fieldAccumulator st)"
    and "isPairStep (mk (stepCounter st) (computeCombinedField (fieldAccumulator st))) \<Longrightarrow>
           \<exists>j<length cracks. \<not> length (points (cracks ! j)) < 2
              \<and> highlightCrackId (mk (stepCounter st) (computeCombinedField (fieldAccumulator st)))
                  = Some (cident (cracks ! j))"
    and "R (mk (stepCounter st) (computeCombinedField (fieldAccumulator st)))"
  shows "stateOK cracks K R base (push mk st)"
proof -
  let ?s = "mk (stepCounter st) (computeCombinedField (fieldAccumulator st))"
  from assms(1) have a: "accOK cracks K (fieldAccumulator st)"
    and b: "\<forall>s\<in>set (steps st). stepOK cracks K s"
    and c: "\<exists>rest. steps st = base @ rest \<and> (\<forall>s\<in>set rest. R s)" by (auto simp: stateOK_def)
  from c obtain rest where r: "steps st = base @ rest" "\<forall>s\<in>set rest. R s" by blast
  have so: "stepOK cracks K ?s"
    unfolding stepOK_def using a assms(2,3) by auto
  have "steps (push mk st) = base @ (rest @ [?s])" by (simp add: push_def r)
  moreover have "\<forall>s\<in>set (rest @ [?s]). R s" using r assms(4) by auto
  ultimately have "\<exists>rest. steps (push mk st) = base @ rest \<and> (\<forall>s\<in>set rest. R s)" by blast
  moreover have "\<forall>s\<in>set (steps (push mk st)). stepOK cracks K s"
    using b so by (auto simp: push_def)
  ultimately show ?thesis using a by (simp add: stateOK_def)
qed

lemma stateOK_update:
  assumes "stateOK cracks K R base st" and "slotsOK cracks slots" and "key \<in> K"
  shows "stateOK cracks K R base
           (st\<lparr>fieldAccumulator := AList.update key slots (fieldAccumulator st)\<rparr>)"
  using assms accOK_update [of cracks K "fieldAccumulator st" slots key]
  by (simp add: stateOK_def)

lemma stateOK_lookup:
  "stateOK cracks K R base st \<Longrightarrow> map_of (fieldAccumulator st) key = Some slots \<Longrightarrow>
     slotsOK cracks slots \<and> key \<in> K"
  by (rule accOK_lookup [OF stateOK_acc])

lemma stateOK_rebase:
  "stateOK cracks K R base st \<Longrightarrow> stateOK cracks K R' (steps st) st"
  by (simp add: stateOK_def)

lemma stateOK_weaken:
  "stateOK cracks K R base st \<Longrightarrow> stateOK cracks K (\<lambda>s. True) base st"
  by (auto simp: stateOK_def)

lemma stateOK_since:
  assumes "stateOK cracks K R base st"
  obtains rest where "steps st = base @ rest" and "\<forall>s\<in>set rest. R s"
  using assms by (auto simp: stateOK_def)

lemma segmentFold_OK:
  assumes "ci < length cracks" and "\<not> length (points (cracks ! ci)) < 2"
    and nc: "\<And>s. \<not> isCrackStart s \<Longrightarrow> R s"
  shows "stateOK cracks K R base st \<Longrightarrow>
     foldl (segmentStep p n (cracks ! ci)) (a, b, st) is = (a', b', st') \<Longrightarrow>
     stateOK cracks K R base st'"
proof (induction "is" arbitrary: a b st)
  case Nil
  then show ?case by simp
next
  case (Cons i "is")
  obtain a1 b1 st1 where s: "segmentStep p n (cracks ! ci) (a, b, st) i = (a1, b1, st1)"
    by (cases "segmentStep p n (cracks ! ci) (a, b, st) i") auto
  from s obtain mk where st1: "st1 = push mk st"
    and cf: "\<And>sid fs. currentFieldState (mk sid fs) = fs"
    and hc: "\<And>sid fs. highlightCrackId (mk sid fs) = Some (cident (cracks ! ci))"
    and de: "\<And>sid fs. description (mk sid fs) = Checking (ident n) (ident p) i"
    by (auto simp: segmentStep_def Let_def plainStep_def)
  have "stateOK cracks K R base st1" unfolding st1
  proof (rule stateOK_push [OF Cons.prems(1)])
    show "R (mk (stepCounter st) (computeCombinedField (fieldAccumulator st)))"
      by (rule nc) (simp add: isCrackStart_def de)
  qed (use cf hc assms(1,2) in auto)
  moreover from Cons.prems(2) s
  have "foldl (segmentStep p n (cracks ! ci)) (a1, b1, st1) is = (a', b', st')" by simp
  ultimately show ?case by (rule Cons.IH)
qed

lemma segmentLoop_short:
  "length (points crack) < 2 \<Longrightarrow> segmentLoop p n crack st = (0, 0, st)"
  by (simp add: segmentLoop_def)

lemma segmentLoop_OK:
  assumes "stateOK cracks K R base st" and "ci < length cracks"
    and "segmentLoop p n (cracks ! ci) st = (f2, f3, st1)"
    and nc: "\<And>s. \<not> isCrackStart s \<Longrightarrow> R s"
  shows "stateOK cracks K R base st1 \<and> (length (points (cracks ! ci)) < 2 \<longrightarrow> f2 = 0 \<and> f3 = 0)"
proof (cases "length (points (cracks ! ci)) < 2")
  case True
  with assms(3) have "f2 = 0" "f3 = 0" "st1 = st" by (simp_all add: segmentLoop_short)
  with assms(1) True show ?thesis by simp
next
  case False
  from segmentFold_OK [OF assms(2) False nc assms(1)] assms(3) False show ?thesis
    by (simp add: segmentLoop_def)
qed

lemma finalFieldOf_range: "finalFieldOf f2 f3 \<in> {1, 2, 3}"
  by (simp add: finalFieldOf_def split: prod.splits)

lemma finalFieldOf_zero: "finalFieldOf 0 0 = 1"
  by (simp add: finalFieldOf_def cancellation_def)

lemma crossingPair_OK:
  assumes run: "crossingPair nodes (cracks ! ci) ci p nodeId st = Inr st'"
    and ci: "ci < length cracks" and ok: "stateOK cracks K R base st"
    and nc: "\<And>s. \<not> isCrackStart s \<Longrightarrow> R s"
  shows "stateOK cracks K R base st'"
proof -
  let ?crack = "cracks ! ci"
  from run obtain n where n: "find (\<lambda>node. ident node = nodeId) nodes = Some n"
    by (auto simp: crossingPair_def split: option.splits)
  obtain f2 f3 st1 where loop: "segmentLoop p n ?crack st = (f2, f3, st1)"
    by (cases "segmentLoop p n ?crack st") auto
  from segmentLoop_OK [OF ok ci loop nc] have ok1: "stateOK cracks K R base st1"
    and sh: "length (points ?crack) < 2 \<longrightarrow> f2 = 0 \<and> f3 = 0" by blast+
  from run n loop obtain slots where
    sl: "map_of (fieldAccumulator st1) (ident n, ident p) = Some slots"
    by (auto simp: crossingPair_def Let_def split: option.splits)
  let ?ff = "finalFieldOf f2 f3"
  let ?st2 = "st1\<lparr>fieldAccumulator :=
      AList.update (ident n, ident p) (setSlot slots ci ?ff) (fieldAccumulator st1)\<rparr>"
  from stateOK_lookup [OF ok1 sl] have so: "slotsOK cracks slots"
    and kk: "(ident n, ident p) \<in> K" by blast+
  have ff1: "length (points ?crack) < 2 \<longrightarrow> ?ff = 1" using sh finalFieldOf_zero by auto
  have "slotsOK cracks (setSlot slots ci ?ff)"
    by (rule slotsOK_setSlot [OF so ci finalFieldOf_range ff1])
  then have ok2: "stateOK cracks K R base ?st2" using kk by (rule stateOK_update [OF ok1])
  show ?thesis
  proof (cases "getSlot slots ci \<noteq> ?ff \<or> ?ff \<noteq> 1")
    case True
    have ns: "\<not> length (points ?crack) < 2"
    proof
      assume s: "length (points ?crack) < 2"
      with ff1 slotsOK_getSlot [OF so ci s] True show False by simp
    qed
    let ?mk = "\<lambda>sid fs. (plainStep (ResultNode (ident n) (ident p) ?ff) sid fs)
                \<lparr>highlightNodeId := Some (ident n),
                 highlightParticleId := Some (ident p),
                 highlightCrackId := Some (cident ?crack),
                 crossingResult := Some ?ff\<rparr>"
    from run n loop sl True have "st' = push ?mk ?st2"
      by (auto simp: crossingPair_def Let_def)
    moreover have "stateOK cracks K R base (push ?mk ?st2)"
    proof (rule stateOK_push [OF ok2])
      show "R (?mk (stepCounter ?st2) (computeCombinedField (fieldAccumulator ?st2)))"
        by (rule nc) (simp add: isCrackStart_def plainStep_def)
    qed (use ci ns in \<open>auto simp: plainStep_def\<close>)
    ultimately show ?thesis by simp
  next
    case False
    with run n loop sl have "st' = ?st2" by (auto simp: crossingPair_def Let_def)
    with ok2 show ?thesis by simp
  qed
qed

lemma remapPair_OK:
  assumes "remapPair ci n a b pid st = Inr st'" and "stateOK cracks K R base st"
    and "ci < length cracks" and "\<not> length (points (cracks ! ci)) < 2" and "b \<in> {1, 2, 3}"
  shows "stateOK cracks K R base st'"
proof -
  from assms(1) obtain slots where sl: "map_of (fieldAccumulator st) (ident n, pid) = Some slots"
    by (auto simp: remapPair_def split: option.splits)
  from stateOK_lookup [OF assms(2) sl] have so: "slotsOK cracks slots"
    and kk: "(ident n, pid) \<in> K" by blast+
  have "slotsOK cracks (setSlot slots ci b)"
    by (rule slotsOK_setSlot [OF so assms(3,5)]) (use assms(4) in simp)
  from stateOK_update [OF assms(2) this kk] assms(1,2) sl show ?thesis
    by (auto simp: remapPair_def split: if_splits)
qed

lemma seeField_short:
  assumes "forEach pids (seeField acc ci n) seen0 = Inr seen"
    and "\<forall>(k, slots)\<in>set acc. getSlot slots ci = 1" and "set seen0 \<subseteq> {1}"
  shows "set seen \<subseteq> {1}"
proof (rule forEach_invariant [OF assms(1), where P = "\<lambda>s. set s \<subseteq> {1}"])
  show "set seen0 \<subseteq> {1}" by fact
next
  fix pid s s'
  assume "set s \<subseteq> {1}" and "seeField acc ci n pid s = Inr s'"
  with assms(2) show "set s' \<subseteq> {1}"
    by (auto simp: seeField_def setAdd_def split: option.splits if_splits dest!: map_of_SomeD)
qed

lemma remapChoice_range:
  "remapChoice so = (a, b) \<Longrightarrow> a \<noteq> - 1 \<Longrightarrow> b \<in> {1, 2, 3}"
  by (auto simp: remapChoice_def split: if_splits)

lemma consistencyStep_fields [simp]:
  "currentFieldState (consistencyStep d n so sid fs) = fs"
  "description (consistencyStep d n so sid fs) = d"
  by (simp_all add: consistencyStep_def plainStep_def)

lemma consistencyNode_OK:
  assumes run: "consistencyNode n2p ci n st = Inr st'"
    and ci: "ci < length cracks" and ok: "stateOK cracks K R base st"
    and nc: "\<And>s. \<not> isCrackStart s \<Longrightarrow> R s"
  shows "stateOK cracks K R base st'"
proof -
  from run obtain pids where pids: "n2p (ident n) = Some pids"
    by (auto simp: consistencyNode_def split: option.splits)
  show ?thesis
  proof (cases "pids = []")
    case True
    with run pids ok show ?thesis by (simp add: consistencyNode_def)
  next
    case False
    from consistencyNode_seen [OF pids False run] obtain seen where
      seen: "forEach pids (seeField (fieldAccumulator st) ci n) [] = Inr seen"
      and d: "distinct seen" by blast
    let ?so = "sort seen"
    let ?s1 = "push (consistencyStep (NodeSees (ident n) ?so) n ?so) st"
    let ?s2 = "push (consistencyStep (Warning (ident n)) n ?so) ?s1"
    have ok1: "stateOK cracks K R base ?s1"
      by (rule stateOK_push [OF ok]) (simp_all add: isPairStep_def isCrackStart_def nc)
    have ok2: "stateOK cracks K R base ?s2"
      by (rule stateOK_push [OF ok1]) (simp_all add: isPairStep_def isCrackStart_def nc)
    obtain a b where ch: "remapChoice ?so = (a, b)" by (cases "remapChoice ?so") auto
    show ?thesis
    proof (cases "length seen = 2 \<and> a \<noteq> - 1")
      case True
      have ns: "\<not> length (points (cracks ! ci)) < 2"
      proof
        assume s: "length (points (cracks ! ci)) < 2"
        have "\<forall>(k, slots)\<in>set (fieldAccumulator st). getSlot slots ci = 1"
          using ok slotsOK_getSlot [OF _ ci s] by (auto simp: stateOK_def accOK_def)
        from seeField_short [OF seen this] have sub: "set seen \<subseteq> {1}" by simp
        have "card (set seen) \<le> card {1 :: int}" by (rule card_mono) (use sub in auto)
        with d True show False by (simp add: distinct_card)
      qed
      let ?mk = "\<lambda>sid fs. (consistencyStep (Normalizing (ident n) a b) n ?so sid fs)
                       \<lparr>normalizationAction := Some (a, b)\<rparr>"
      from run pids False seen ch True obtain s3 where
        s3: "forEach pids (remapPair ci n a b) ?s1 = Inr s3"
        and st': "st' = push ?mk s3"
        by (auto simp: consistencyNode_def Let_def split: sum.splits)
      from remapChoice_range [OF ch] True have b: "b \<in> {1, 2, 3}" by simp
      have ok3: "stateOK cracks K R base s3"
        by (rule forEach_invariant [OF s3, where P = "stateOK cracks K R base"])
          (use ok1 remapPair_OK [OF _ _ ci ns b] in blast)+
      show ?thesis unfolding st'
        by (rule stateOK_push [OF ok3]) (simp_all add: isPairStep_def isCrackStart_def nc)
    next
      case False
      with run pids \<open>pids \<noteq> []\<close> seen ch have "st' = ?s1 \<or> st' = ?s2"
        by (auto simp: consistencyNode_def Let_def split: if_splits)
      with ok1 ok2 show ?thesis by auto
    qed
  qed
qed

lemma crackStep_fields [simp]:
  "currentFieldState (crackStep d crack sid fs) = fs"
  "description (crackStep d crack sid fs) = d"
  by (simp_all add: crackStep_def plainStep_def)

lemma crossingPhase_OK:
  assumes run: "crossingPhase nodes particles p2n (cracks ! ci) ci st = Inr st'"
    and ci: "ci < length cracks" and ok: "stateOK cracks K R base st"
    and nc: "\<And>s. \<not> isCrackStart s \<Longrightarrow> R s"
  shows "stateOK cracks K R base st'"
proof (rule forEach_invariant [OF run [unfolded crossingPhase_def],
      where P = "stateOK cracks K R base"])
  show "stateOK cracks K R base st" by (rule ok)
next
  fix p s s'
  assume "stateOK cracks K R base s"
    and "(case p2n (ident p) of None \<Rightarrow> Inl TypeError
          | Some connectedNodeIds \<Rightarrow>
              forEach connectedNodeIds (crossingPair nodes (cracks ! ci) ci p) s) = Inr s'"
  then obtain L where "forEach L (crossingPair nodes (cracks ! ci) ci p) s = Inr s'"
    and "stateOK cracks K R base s" by (auto split: option.splits)
  then show "stateOK cracks K R base s'"
  proof (rule forEach_invariant [where P = "stateOK cracks K R base"])
    fix a t t'
    assume a1: "stateOK cracks K R base t"
      and a2: "crossingPair nodes (cracks ! ci) ci p a t = Inr t'"
    show "stateOK cracks K R base t'" by (rule crossingPair_OK [OF a2 ci a1 nc])
  qed
qed

lemma consistencyLoop_OK:
  assumes run: "forEach ns (consistencyNode n2p ci) st = Inr st'"
    and ci: "ci < length cracks" and ok: "stateOK cracks K R base st"
    and nc: "\<And>s. \<not> isCrackStart s \<Longrightarrow> R s"
  shows "stateOK cracks K R base st'"
proof (rule forEach_invariant [OF run, where P = "stateOK cracks K R base"])
  show "stateOK cracks K R base st" by (rule ok)
next
  fix a t t'
  assume a1: "stateOK cracks K R base t" and a2: "consistencyNode n2p ci a t = Inr t'"
  show "stateOK cracks K R base t'" by (rule consistencyNode_OK [OF a2 ci a1 nc])
qed

lemma processCrack_OK:
  assumes run: "processCrack nodes particles p2n n2p (cracks ! ci, ci) st = Inr st'"
    and ci: "ci < length cracks" and ok: "stateOK cracks K R base st"
  shows "\<exists>start inner. steps st' = steps st @ start # inner \<and> isCrackStart start
     \<and> (\<forall>s\<in>set inner. \<not> isCrackStart s)
     \<and> stateOK cracks K (\<lambda>s. True) base st'"
proof -
  let ?crack = "cracks ! ci"
  let ?mk = "crackStep (ProcessingCrack (cident ?crack + 1)) ?crack"
  let ?start = "?mk (stepCounter st) (computeCombinedField (fieldAccumulator st))"
  let ?s1 = "push ?mk st"
  let ?N = "\<lambda>s. \<not> isCrackStart s"
  have st1: "steps ?s1 = steps st @ [?start]" by (simp add: push_def)
  have "stateOK cracks K (\<lambda>s. True) base ?s1"
    by (rule stateOK_push [OF stateOK_weaken [OF ok]]) (simp_all add: isPairStep_def)
  then have ok1: "stateOK cracks K ?N (steps ?s1) ?s1" by (rule stateOK_rebase)
  from run obtain s2 where s2: "crossingPhase nodes particles p2n ?crack ci ?s1 = Inr s2"
    and r: "forEach nodes (consistencyNode n2p ci)
              (push (crackStep (ConsistencyPhase (cident ?crack + 1)) ?crack) s2) = Inr st'"
    by (auto simp: processCrack_def Let_def split: sum.splits)
  have ok2: "stateOK cracks K ?N (steps ?s1) s2"
    by (rule crossingPhase_OK [OF s2 ci ok1])
  let ?s3 = "push (crackStep (ConsistencyPhase (cident ?crack + 1)) ?crack) s2"
  have ok3: "stateOK cracks K ?N (steps ?s1) ?s3"
    by (rule stateOK_push [OF ok2]) (simp_all add: isPairStep_def isCrackStart_def)
  have ok4: "stateOK cracks K ?N (steps ?s1) st'"
    by (rule consistencyLoop_OK [OF r ci ok3])
  from stateOK_since [OF ok4] obtain inner where
    i: "steps st' = steps ?s1 @ inner" and ni: "\<forall>s\<in>set inner. \<not> isCrackStart s" by blast
  from stateOK_since [OF ok] obtain rest where re: "steps st = base @ rest" by blast
  have a: "steps st' = steps st @ ?start # inner" using i st1 by simp
  then have "steps st' = base @ (rest @ ?start # inner)" using re by simp
  then have "stateOK cracks K (\<lambda>s. True) base st'" using ok4 by (auto simp: stateOK_def)
  moreover have "isCrackStart ?start" by (simp add: isCrackStart_def)
  ultimately show ?thesis using a ni by blast
qed

lemma cracksLoop_OK:
  assumes "forEach xs (processCrack nodes particles p2n n2p) st = Inr st'"
    and "\<forall>a\<in>set xs. \<exists>ci<length cracks. a = (cracks ! ci, ci)"
    and "stateOK cracks K R base st"
  shows "\<exists>new. steps st' = steps st @ new
     \<and> length (filter isCrackStart new) = length xs
     \<and> (xs = [] \<longrightarrow> new = [])
     \<and> (xs \<noteq> [] \<longrightarrow> new \<noteq> [] \<and> isCrackStart (hd new))
     \<and> stateOK cracks K (\<lambda>s. True) base st'"
  using assms
proof (induction xs arbitrary: st R)
  case Nil
  then show ?case using stateOK_weaken by auto
next
  case (Cons a xs)
  from Cons.prems(2) obtain ci where ci: "ci < length cracks" and a: "a = (cracks ! ci, ci)"
    by auto
  from Cons.prems(1) obtain s1 where
    s1: "processCrack nodes particles p2n n2p (cracks ! ci, ci) st = Inr s1"
    and r: "forEach xs (processCrack nodes particles p2n n2p) s1 = Inr st'"
    by (auto simp: a split: sum.splits)
  from processCrack_OK [OF s1 ci Cons.prems(3)] obtain start inner where
    e1: "steps s1 = steps st @ start # inner" and cs: "isCrackStart start"
    and ni: "\<forall>s\<in>set inner. \<not> isCrackStart s"
    and ok1: "stateOK cracks K (\<lambda>s. True) base s1" by blast
  have m: "\<forall>a\<in>set xs. \<exists>ci<length cracks. a = (cracks ! ci, ci)" using Cons.prems(2) by simp
  from Cons.IH [OF r m ok1] obtain new where
    e2: "steps st' = steps s1 @ new" and c2: "length (filter isCrackStart new) = length xs"
    and ok': "stateOK cracks K (\<lambda>s. True) base st'" by blast
  let ?new = "start # inner @ new"
  have "steps st' = steps st @ ?new" using e1 e2 by simp
  moreover have "length (filter isCrackStart ?new) = length (a # xs)"
    using cs ni c2 by (simp add: filter_empty_conv [THEN iffD2])
  moreover have "?new \<noteq> [] \<and> isCrackStart (hd ?new)" using cs by simp
  ultimately show ?case using ok' by blast
qed

lemma initAccumulator_ones:
  assumes "initAccumulator p2n particles N = Inr acc"
  shows "\<forall>(k, slots)\<in>set acc. slots = replicate N 1"
proof (rule forEach_invariant [OF assms [unfolded initAccumulator_def],
      where P = "\<lambda>acc. \<forall>(k, slots)\<in>set acc. slots = replicate N 1"])
  show "\<forall>(k, slots)\<in>set []. slots = replicate N 1" by simp
next
  fix p s s'
  assume a: "\<forall>(k, slots)\<in>set s. slots = replicate N 1"
    and "(case p2n (ident p) of None \<Rightarrow> Inl TypeError
          | Some nodeIds \<Rightarrow> forEach nodeIds (initPair N p) s) = Inr s'"
  then obtain L where r: "forEach L (initPair N p) s = Inr s'" by (auto split: option.splits)
  show "\<forall>(k, slots)\<in>set s'. slots = replicate N 1"
  proof (rule forEach_invariant [OF r,
        where P = "\<lambda>acc. \<forall>(k, slots)\<in>set acc. slots = replicate N 1"])
    show "\<forall>(k, slots)\<in>set s. slots = replicate N 1" by (rule a)
  next
    fix nid t t'
    assume "\<forall>(k, slots)\<in>set t. slots = replicate N 1" and "initPair N p nid t = Inr t'"
    then show "\<forall>(k, slots)\<in>set t'. slots = replicate N 1"
      using set_alist_update [of "(nid, ident p)" "replicate N 1" t]
      by (auto simp: initPair_def)
  qed
qed

lemma zip_cracks_members:
  "\<forall>a\<in>set (zip cracks [0..<length cracks]). \<exists>ci<length cracks. a = (cracks ! ci, ci)"
  by (auto simp: set_zip)

lemma run_unfold:
  assumes "generateSimulationSteps nodes particles cracks = Inr trace"
  obtains n2p acc st where
    "buildNodeToParticles nodes particles = Inr n2p"
    and "initAccumulator (buildParticleToNodes nodes particles) particles (length cracks) = Inr acc"
    and "forEach (zip cracks [0..<length cracks])
           (processCrack nodes particles (buildParticleToNodes nodes particles) n2p)
           (push (plainStep Initialization)
              \<lparr>steps = [], stepCounter = 0, fieldAccumulator = acc\<rparr>) = Inr st"
    and "trace = steps (push (plainStep Complete) st)"
  using assms by (auto simp: generateSimulationSteps_def Let_def split: sum.splits)

lemma initial_OK:
  assumes "\<forall>(k, slots)\<in>set acc. slots = replicate (length cracks) 1"
  shows "stateOK cracks (dom (map_of acc)) R
           [plainStep Initialization 0 (computeCombinedField acc)]
           (push (plainStep Initialization)
              \<lparr>steps = [], stepCounter = 0, fieldAccumulator = acc\<rparr>)"
proof -
  have a: "accOK cracks (dom (map_of acc)) acc"
    using assms slotsOK_replicate by (auto simp: accOK_def)
  then have "stepOK cracks (dom (map_of acc)) (plainStep Initialization 0 (computeCombinedField acc))"
    unfolding stepOK_def by (auto simp: plainStep_def isPairStep_def)
  with a show ?thesis by (simp add: stateOK_def push_def)
qed

lemma run_OK:
  assumes "generateSimulationSteps nodes particles cracks = Inr trace"
  shows "\<exists>s0 rest. trace = s0 # rest
     \<and> (\<forall>(k, v)\<in>set (currentFieldState s0). v = combinedValue (replicate (length cracks) 1))
     \<and> (\<forall>s\<in>set trace. \<forall>(k, v)\<in>set (currentFieldState s).
           \<exists>slots. slotsOK cracks slots \<and> v = combinedValue slots)"
proof -
  let ?p2n = "buildParticleToNodes nodes particles"
  from run_unfold [OF assms] obtain n2p acc st where
    acc: "initAccumulator ?p2n particles (length cracks) = Inr acc"
    and r: "forEach (zip cracks [0..<length cracks])
              (processCrack nodes particles ?p2n n2p)
              (push (plainStep Initialization)
                 \<lparr>steps = [], stepCounter = 0, fieldAccumulator = acc\<rparr>) = Inr st"
    and tr: "trace = steps (push (plainStep Complete) st)" by blast
  note ones = initAccumulator_ones [OF acc]
  let ?K = "dom (map_of acc)"
  let ?s0 = "plainStep Initialization 0 (computeCombinedField acc)"
  have v0: "\<forall>(k, v)\<in>set (currentFieldState ?s0). v = combinedValue (replicate (length cracks) 1)"
    using ones by (auto simp: plainStep_def computeCombinedField_def)
  from cracksLoop_OK [OF r zip_cracks_members initial_OK [OF ones]]
  have ok: "stateOK cracks ?K (\<lambda>s. True) [?s0] st" by blast
  have "stateOK cracks ?K (\<lambda>s. True) [?s0] (push (plainStep Complete) st)"
    by (rule stateOK_push [OF ok]) (simp_all add: plainStep_def isPairStep_def)
  then have s: "\<forall>s\<in>set trace. stepOK cracks ?K s" and "\<exists>rest. trace = ?s0 # rest"
    unfolding tr by (auto simp: stateOK_def)
  have "\<forall>s\<in>set trace. \<forall>(k, v)\<in>set (currentFieldState s).
           \<exists>slots. slotsOK cracks slots \<and> v = combinedValue slots"
  proof
    fix s assume "s \<in> set trace"
    with s obtain a where "accOK cracks ?K a" "currentFieldState s = computeCombinedField a"
      by (auto simp: stepOK_def)
    with snapshot_OK [of cracks ?K a]
    show "\<forall>(k, v)\<in>set (currentFieldState s). \<exists>slots. slotsOK cracks slots \<and> v = combinedValue slots"
      by simp
  qed
  with v0 \<open>\<exists>rest. trace = ?s0 # rest\<close> show ?thesis by blast
qed

section \<open>The range of the field encoder\<close>

text \<open>
  The exact sum of a label array over \<open>{1, 2, 3}\<close> of up to 33 cracks is below
  \<open>2 ^ 53\<close>: every partial sum of the code is then an integer that a double holds
  exactly.
\<close>

lemma upt_shift: "[k..<k + length (l # ls)] = k # [Suc k..<Suc k + length ls]"
  by (simp add: upt_conv_Cons del: upt_Suc)

lemma combined_foldl:
  "foldl (\<lambda>val (fieldVal, idx). val + fieldVal * 3 ^ idx) (a::int) (zip ls [k..<k + length ls]) =
     a + 3 ^ k * foldl (\<lambda>val (fieldVal, idx). val + fieldVal * 3 ^ idx) 0 (zip ls [0..<length ls])"
proof (induction ls arbitrary: a k)
  case Nil
  then show ?case by simp
next
  case (Cons l ls)
  let ?F = "\<lambda>val (fieldVal, idx). val + fieldVal * (3::int) ^ idx"
  note u = upt_shift [of _ l ls]
  have "foldl ?F a (zip (l # ls) [k..<k + length (l # ls)]) =
      foldl ?F (a + l * 3 ^ k) (zip ls [Suc k..<Suc k + length ls])"
    unfolding u by simp
  also have "\<dots> = a + l * 3 ^ k + 3 ^ Suc k * foldl ?F 0 (zip ls [0..<length ls])"
    by (rule Cons.IH)
  finally have lhs: "foldl ?F a (zip (l # ls) [k..<k + length (l # ls)]) =
      a + l * 3 ^ k + 3 ^ Suc k * foldl ?F 0 (zip ls [0..<length ls])" .
  have "foldl ?F 0 (zip (l # ls) [0..<length (l # ls)]) =
      foldl ?F (0 + l * 3 ^ 0) (zip ls [Suc 0..<Suc 0 + length ls])"
    using upt_shift [of 0 l ls] by simp
  also have "\<dots> = 0 + l * 3 ^ 0 + 3 ^ Suc 0 * foldl ?F 0 (zip ls [0..<length ls])"
    by (rule Cons.IH)
  finally have rhs: "foldl ?F 0 (zip (l # ls) [0..<length (l # ls)]) =
      l + 3 * foldl ?F 0 (zip ls [0..<length ls])" by simp
  show ?case unfolding lhs rhs by (simp add: algebra_simps)
qed

lemma combinedValue_Nil: "combinedValue [] = 0"
  by (simp add: combinedValue_def)

lemma combinedValue_Cons: "combinedValue (l # ls) = l + 3 * combinedValue ls"
proof -
  have "[0..<length (l # ls)] = 0 # [Suc 0..<Suc 0 + length ls]"
    using upt_shift [of 0 l ls] by simp
  then have "combinedValue (l # ls) =
      foldl (\<lambda>val (fieldVal, idx). val + fieldVal * 3 ^ idx) l (zip ls [Suc 0..<Suc 0 + length ls])"
    unfolding combinedValue_def by simp
  also have "\<dots> = l + 3 ^ Suc 0 * combinedValue ls"
    unfolding combinedValue_def by (rule combined_foldl)
  finally show ?thesis by simp
qed

lemma combinedValue_range:
  "set slots \<subseteq> {1, 2, 3} \<Longrightarrow>
     0 \<le> combinedValue slots \<and> 2 * combinedValue slots + 3 \<le> 3 ^ (length slots + 1)"
proof (induction slots)
  case Nil
  then show ?case by (simp add: combinedValue_Nil)
next
  case (Cons l ls)
  from Cons.prems have l: "1 \<le> l \<and> l \<le> 3" by auto
  from Cons have "0 \<le> combinedValue ls \<and> 2 * combinedValue ls + 3 \<le> 3 ^ (length ls + 1)"
    by simp
  with l show ?case by (simp add: combinedValue_Cons)
qed

lemma combinedValue_exact:
  assumes "set slots \<subseteq> {1, 2, 3}" and "length slots \<le> 33"
  shows "0 \<le> combinedValue slots \<and> combinedValue slots < 2 ^ 53"
proof -
  from assms(2) have "(3::int) ^ (length slots + 1) \<le> 3 ^ 34"
    by (intro power_increasing) simp_all
  with combinedValue_range [OF assms(1)] show ?thesis by simp
qed

section \<open>Labels of the accumulator\<close>

lemma crossingPair_labelled:
  assumes run: "crossingPair nodes crack ci p nodeId st = Inr st'"
    and ci: "ci < N" and l: "labelled N (fieldAccumulator st)"
  shows "labelled N (fieldAccumulator st')"
proof -
  from run obtain n where n: "find (\<lambda>node. ident node = nodeId) nodes = Some n"
    by (auto simp: crossingPair_def split: option.splits)
  obtain f2 f3 st1 where loop: "segmentLoop p n crack st = (f2, f3, st1)"
    by (cases "segmentLoop p n crack st") auto
  from segmentLoop_counts [OF loop] have a1: "fieldAccumulator st1 = fieldAccumulator st" by simp
  from run n loop obtain slots where
    sl: "map_of (fieldAccumulator st1) (ident n, ident p) = Some slots"
    by (auto simp: crossingPair_def Let_def split: option.splits)
  let ?slots = "setSlot slots ci (finalFieldOf f2 f3)"
  from run n loop sl have acc: "fieldAccumulator st' =
      AList.update (ident n, ident p) ?slots (fieldAccumulator st1)"
    by (auto simp: crossingPair_def Let_def split: if_splits)
  from sl a1 l have s: "length slots = N \<and> set slots \<subseteq> {1, 2, 3}"
    by (auto simp: labelled_def dest!: map_of_SomeD)
  with ci have e: "?slots = slots[ci := finalFieldOf f2 f3]" by (simp add: setSlot_def)
  have "set (slots[ci := finalFieldOf f2 f3]) \<subseteq> insert (finalFieldOf f2 f3) (set slots)"
    by (rule set_update_subset_insert)
  with s finalFieldOf_range [of f2 f3] have "length ?slots = N \<and> set ?slots \<subseteq> {1, 2, 3}"
    unfolding e by auto
  with l a1 set_alist_update [of "(ident n, ident p)" ?slots "fieldAccumulator st1"]
  show ?thesis unfolding acc labelled_def by auto
qed

lemma remapPair_labelled:
  assumes "remapPair ci n a b pid st = Inr st'" and "ci < N" and "b \<in> {1, 2, 3}"
    and l: "labelled N (fieldAccumulator st)"
  shows "labelled N (fieldAccumulator st')"
proof -
  from assms(1) obtain slots where sl: "map_of (fieldAccumulator st) (ident n, pid) = Some slots"
    by (auto simp: remapPair_def split: option.splits)
  from sl l have s: "length slots = N \<and> set slots \<subseteq> {1, 2, 3}"
    by (auto simp: labelled_def dest!: map_of_SomeD)
  with assms(2) have e: "setSlot slots ci b = slots[ci := b]" by (simp add: setSlot_def)
  have "set (slots[ci := b]) \<subseteq> insert b (set slots)" by (rule set_update_subset_insert)
  with s assms(3) have "length (setSlot slots ci b) = N \<and> set (setSlot slots ci b) \<subseteq> {1, 2, 3}"
    unfolding e by auto
  with l set_alist_update [of "(ident n, pid)" "setSlot slots ci b" "fieldAccumulator st"]
  have "labelled N (AList.update (ident n, pid) (setSlot slots ci b) (fieldAccumulator st))"
    unfolding labelled_def by auto
  with assms(1) sl l show ?thesis by (auto simp: remapPair_def split: if_splits)
qed

lemma consistencyNode_labelled:
  assumes run: "consistencyNode n2p ci n st = Inr st'"
    and ci: "ci < N" and l: "labelled N (fieldAccumulator st)"
  shows "labelled N (fieldAccumulator st')"
proof -
  from run obtain pids where pids: "n2p (ident n) = Some pids"
    by (auto simp: consistencyNode_def split: option.splits)
  show ?thesis
  proof (cases "pids = []")
    case True
    with run pids l show ?thesis by (simp add: consistencyNode_def)
  next
    case False
    from consistencyNode_seen [OF pids False run] obtain seen where
      seen: "forEach pids (seeField (fieldAccumulator st) ci n) [] = Inr seen" by blast
    let ?so = "sort seen"
    let ?s1 = "push (consistencyStep (NodeSees (ident n) ?so) n ?so) st"
    obtain a b where ch: "remapChoice ?so = (a, b)" by (cases "remapChoice ?so") auto
    show ?thesis
    proof (cases "length seen = 2 \<and> a \<noteq> - 1")
      case True
      from run pids False seen ch True obtain s3 where
        s3: "forEach pids (remapPair ci n a b) ?s1 = Inr s3"
        and st': "fieldAccumulator st' = fieldAccumulator s3"
        by (auto simp: consistencyNode_def Let_def split: sum.splits)
      from remapChoice_range [OF ch] True have b: "b \<in> {1, 2, 3}" by simp
      have "labelled N (fieldAccumulator s3)"
        by (rule forEach_invariant [OF s3, where P = "\<lambda>s. labelled N (fieldAccumulator s)"])
          (use l remapPair_labelled [OF _ ci b] in auto)
      with st' show ?thesis by simp
    next
      case False
      with run pids \<open>pids \<noteq> []\<close> seen ch have "fieldAccumulator st' = fieldAccumulator st"
        by (auto simp: consistencyNode_def Let_def split: if_splits)
      with l show ?thesis by simp
    qed
  qed
qed

text \<open>
  Claim C9. The initial accumulator holds 1 in every slot; processing a pair for a crack
  and the consistency pass at a node keep every slot of the accumulator in
  \<open>{1, 2, 3}\<close>; and in the trace of a run the first snapshot encodes the label 1 in
  every slot, and every snapshot encodes, for every pair, one label in \<open>{1, 2, 3}\<close> per
  crack.
\<close>

theorem accumulator_labels:
  "(initAccumulator p2n particles N = Inr acc \<longrightarrow>
      (\<forall>(key, slots)\<in>set acc. slots = replicate N 1))
   \<and> (crossingPair nodes crack ci p nodeId st = Inr st' \<and> ci < N
        \<and> labelled N (fieldAccumulator st) \<longrightarrow> labelled N (fieldAccumulator st'))
   \<and> (consistencyNode n2p ci n st = Inr st' \<and> ci < N
        \<and> labelled N (fieldAccumulator st) \<longrightarrow> labelled N (fieldAccumulator st'))
   \<and> (generateSimulationSteps nodes particles cracks = Inr trace \<longrightarrow>
        (\<exists>s0 rest. trace = s0 # rest
           \<and> (\<forall>(key, v)\<in>set (currentFieldState s0).
                 v = combinedValue (replicate (length cracks) 1)))
        \<and> (\<forall>s\<in>set trace. \<forall>(key, v)\<in>set (currentFieldState s).
              \<exists>slots. length slots = length cracks \<and> set slots \<subseteq> {1, 2, 3}
                \<and> v = combinedValue slots))"
proof (intro conjI impI)
  assume "initAccumulator p2n particles N = Inr acc"
  then show "\<forall>(key, slots)\<in>set acc. slots = replicate N 1" by (rule initAccumulator_ones)
next
  assume "crossingPair nodes crack ci p nodeId st = Inr st' \<and> ci < N
        \<and> labelled N (fieldAccumulator st)"
  then show "labelled N (fieldAccumulator st')" using crossingPair_labelled by blast
next
  assume "consistencyNode n2p ci n st = Inr st' \<and> ci < N \<and> labelled N (fieldAccumulator st)"
  then show "labelled N (fieldAccumulator st')" using consistencyNode_labelled by blast
next
  assume g: "generateSimulationSteps nodes particles cracks = Inr trace"
  from run_OK [OF g] show "\<exists>s0 rest. trace = s0 # rest
           \<and> (\<forall>(key, v)\<in>set (currentFieldState s0).
                 v = combinedValue (replicate (length cracks) 1))" by blast
next
  assume g: "generateSimulationSteps nodes particles cracks = Inr trace"
  from run_OK [OF g] have "\<forall>s\<in>set trace. \<forall>(key, v)\<in>set (currentFieldState s).
      \<exists>slots. slotsOK cracks slots \<and> v = combinedValue slots" by blast
  then show "\<forall>s\<in>set trace. \<forall>(key, v)\<in>set (currentFieldState s).
              \<exists>slots. length slots = length cracks \<and> set slots \<subseteq> {1, 2, 3}
                \<and> v = combinedValue slots"
    unfolding slotsOK_def by fast
qed

theorem accumulator_labels_witness:
  "(\<exists>acc. initAccumulator (buildParticleToNodes case1_nodes case1_particles) case1_particles 1 = Inr acc
      \<and> (\<forall>(key, slots)\<in>set acc. slots = replicate 1 1))
   \<and> (\<exists>st'. crossingPair case1_nodes (hd case1_cracks) 0 (hd case1_particles) 2 pair_state = Inr st'
      \<and> labelled 1 (fieldAccumulator pair_state) \<and> labelled 1 (fieldAccumulator st'))
   \<and> (\<exists>st'. consistencyNode (labels_table [0, 1]) 0 (mkNode 0 2 2)
            (labels_state [(0, 1), (1, 2)]) = Inr st'
      \<and> labelled 1 (fieldAccumulator (labels_state [(0, 1), (1, 2)]))
      \<and> labelled 1 (fieldAccumulator st'))
   \<and> (\<exists>trace. generateSimulationSteps case1_nodes case1_particles case1_cracks = Inr trace
      \<and> (\<exists>s0 rest. trace = s0 # rest
           \<and> (\<forall>(key, v)\<in>set (currentFieldState s0). v = 1))
      \<and> (\<forall>s\<in>set trace. \<forall>(key, v)\<in>set (currentFieldState s).
              \<exists>slots. length slots = 1 \<and> set slots \<subseteq> {1, 2, 3} \<and> v = combinedValue slots))"
proof -
  have d: "distinct (map ident case1_particles)"
    by (simp add: case1_particles_def mkNode_def)
  from initAccumulator_total [OF d, of case1_nodes 1] obtain acc where
    i: "initAccumulator (buildParticleToNodes case1_nodes case1_particles) case1_particles 1 = Inr acc"
    by blast
  note c1 = accumulator_labels [THEN conjunct1, THEN mp, OF i]
  have "\<exists>st'. crossingPair case1_nodes (hd case1_cracks) 0 (hd case1_particles) 2 pair_state = Inr st'"
    by (simp add: crossingPair_def segmentLoop_def segmentStep_def checkCrossing_def triangleArea_def
       finalFieldOf_def cancellation_def getSlot_def setSlot_def push_def mkNode_def case1_nodes_def
       case1_cracks_def case1_particles_def pair_state_def Let_def)
  then obtain s2 where
    r2: "crossingPair case1_nodes (hd case1_cracks) 0 (hd case1_particles) 2 pair_state = Inr s2" ..
  have l2: "labelled 1 (fieldAccumulator pair_state)"
    by (simp add: labelled_def pair_state_def)
  have z: "(0::nat) < 1" by simp
  note c2 = accumulator_labels [THEN conjunct2, THEN conjunct1, THEN mp,
      OF conjI [OF r2 conjI [OF z l2]]]
  have "\<exists>s. consistencyNode (labels_table [0, 1]) 0 (mkNode 0 2 2)
            (labels_state [(0, 1), (1, 2)]) = Inr s"
    by (simp add: consistency_eval)
  then obtain s3 where r3: "consistencyNode (labels_table [0, 1]) 0 (mkNode 0 2 2)
            (labels_state [(0, 1), (1, 2)]) = Inr s3" ..
  have l3: "labelled 1 (fieldAccumulator (labels_state [(0, 1), (1, 2)]))"
    by (simp add: labelled_def labels_state_def)
  note c3 = accumulator_labels [THEN conjunct2, THEN conjunct2, THEN conjunct1, THEN mp,
      OF conjI [OF r3 conjI [OF z l3]]]
  from run_total [OF d, of case1_nodes case1_cracks] obtain trace where
    g: "generateSimulationSteps case1_nodes case1_particles case1_cracks = Inr trace" by blast
  note c4 = accumulator_labels [THEN conjunct2, THEN conjunct2, THEN conjunct2, THEN mp, OF g]
  have n: "length case1_cracks = 1" by (simp add: case1_cracks_def)
  have v: "combinedValue (replicate 1 1) = 1" by (simp add: combinedValue_def)
  from c4 have c4': "(\<exists>s0 rest. trace = s0 # rest
           \<and> (\<forall>(key, v)\<in>set (currentFieldState s0). v = 1))
      \<and> (\<forall>s\<in>set trace. \<forall>(key, v)\<in>set (currentFieldState s).
              \<exists>slots. length slots = 1 \<and> set slots \<subseteq> {1, 2, 3} \<and> v = combinedValue slots)"
    unfolding n v .
  from i c1 r2 l2 c2 r3 l3 c3 g c4' show ?thesis by blast
qed

section \<open>A crack of fewer than 2 points\<close>

lemma pushParticle_loop_set:
  assumes "ident ` set ns \<subseteq> dom m"
  shows "\<exists>m'. forEach ns (pushParticle pid) m = Inr m' \<and> dom m' = dom m
     \<and> (\<forall>nid pids. m nid = Some pids \<longrightarrow>
          (\<exists>pids'. m' nid = Some pids'
             \<and> set pids' = set pids \<union> (if nid \<in> ident ` set ns then {pid} else {})))"
  using assms
proof (induction ns arbitrary: m)
  case Nil
  then show ?case by simp
next
  case (Cons a ns)
  from Cons.prems obtain ps where ps: "m (ident a) = Some ps" by auto
  let ?m1 = "m(ident a \<mapsto> ps @ [pid])"
  have d1: "dom ?m1 = dom m" using ps by auto
  with Cons.prems have "ident ` set ns \<subseteq> dom ?m1" by simp
  from Cons.IH [OF this] obtain m' where r: "forEach ns (pushParticle pid) ?m1 = Inr m'"
    and d: "dom m' = dom ?m1"
    and s: "\<forall>nid pids. ?m1 nid = Some pids \<longrightarrow>
          (\<exists>pids'. m' nid = Some pids'
             \<and> set pids' = set pids \<union> (if nid \<in> ident ` set ns then {pid} else {}))" by blast
  have "forEach (a # ns) (pushParticle pid) m = Inr m'" by (simp add: pushParticle_def ps r)
  moreover have "dom m' = dom m" using d d1 by simp
  moreover have "\<forall>nid pids. m nid = Some pids \<longrightarrow>
          (\<exists>pids'. m' nid = Some pids'
             \<and> set pids' = set pids \<union> (if nid \<in> ident ` set (a # ns) then {pid} else {}))"
  proof (intro allI impI)
    fix nid pids assume m: "m nid = Some pids"
    show "\<exists>pids'. m' nid = Some pids'
             \<and> set pids' = set pids \<union> (if nid \<in> ident ` set (a # ns) then {pid} else {})"
    proof (cases "nid = ident a")
      case True
      with ps m have "?m1 nid = Some (pids @ [pid])" by simp
      with s obtain pids' where "m' nid = Some pids'"
        and "set pids' = set (pids @ [pid]) \<union> (if nid \<in> ident ` set ns then {pid} else {})"
        by blast
      with True show ?thesis by auto
    next
      case False
      with m have "?m1 nid = Some pids" by simp
      with s obtain pids' where "m' nid = Some pids'"
        and "set pids' = set pids \<union> (if nid \<in> ident ` set ns then {pid} else {})" by blast
      with False show ?thesis by auto
    qed
  qed
  ultimately show ?case by blast
qed

lemma nodeToParticles_loop_set:
  assumes "ident ` set nodes \<subseteq> dom m"
  shows "\<exists>m'. forEach ps (\<lambda>p. forEach (connectedNodes nodes p) (pushParticle (ident p))) m = Inr m'
     \<and> dom m' = dom m
     \<and> (\<forall>nid pids. m nid = Some pids \<longrightarrow>
          (\<exists>pids'. m' nid = Some pids'
             \<and> set pids' = set pids \<union> {pid. linked nodes ps nid pid}))"
  using assms
proof (induction ps arbitrary: m)
  case Nil
  then show ?case by (simp add: linked_def)
next
  case (Cons p ps)
  let ?F = "\<lambda>p. forEach (connectedNodes nodes p) (pushParticle (ident p))"
  have "ident ` set (connectedNodes nodes p) \<subseteq> dom m"
    using Cons.prems set_connectedNodes [of nodes p] by blast
  from pushParticle_loop_set [OF this, of "ident p"] obtain m1 where
    r1: "?F p m = Inr m1" and d1: "dom m1 = dom m"
    and s1: "\<forall>nid pids. m nid = Some pids \<longrightarrow>
          (\<exists>pids'. m1 nid = Some pids'
             \<and> set pids' = set pids
                 \<union> (if nid \<in> ident ` set (connectedNodes nodes p) then {ident p} else {}))"
    by blast
  from Cons.prems d1 have "ident ` set nodes \<subseteq> dom m1" by simp
  from Cons.IH [OF this] obtain m' where r: "forEach ps ?F m1 = Inr m'"
    and d: "dom m' = dom m1"
    and s: "\<forall>nid pids. m1 nid = Some pids \<longrightarrow>
          (\<exists>pids'. m' nid = Some pids'
             \<and> set pids' = set pids \<union> {pid. linked nodes ps nid pid})" by blast
  have "forEach (p # ps) ?F m = Inr m'" by (simp add: r1 r)
  moreover have "dom m' = dom m" using d d1 by simp
  moreover have "\<forall>nid pids. m nid = Some pids \<longrightarrow>
          (\<exists>pids'. m' nid = Some pids'
             \<and> set pids' = set pids \<union> {pid. linked nodes (p # ps) nid pid})"
  proof (intro allI impI)
    fix nid pids assume "m nid = Some pids"
    with s1 obtain p1 where a: "m1 nid = Some p1"
      and b: "set p1 = set pids
                 \<union> (if nid \<in> ident ` set (connectedNodes nodes p) then {ident p} else {})"
      by blast
    from s a obtain p2 where c: "m' nid = Some p2"
      and e: "set p2 = set p1 \<union> {pid. linked nodes ps nid pid}" by blast
    have "set p2 = set pids \<union> {pid. linked nodes (p # ps) nid pid}"
      unfolding e b by (auto simp: linked_Cons split: if_splits)
    with c show "\<exists>pids'. m' nid = Some pids'
             \<and> set pids' = set pids \<union> {pid. linked nodes (p # ps) nid pid}" by blast
  qed
  ultimately show ?case by blast
qed

lemma buildNodeToParticles_linked:
  assumes "buildNodeToParticles nodes particles = Inr n2p" and "n \<in> set nodes"
  shows "\<exists>pids. n2p (ident n) = Some pids
     \<and> set pids = {pid. linked nodes particles (ident n) pid}"
proof -
  let ?m0 = "foldl (\<lambda>m n. m(ident n \<mapsto> [])) Map.empty nodes"
  have m0: "?m0 k = (if k \<in> ident ` set nodes then Some [] else None)" for k
    by (rule foldl_upd_const)
  have "ident ` set nodes \<subseteq> dom ?m0" by (auto simp: dom_def m0)
  from nodeToParticles_loop_set [OF this, of particles] assms(1) have
    "\<forall>nid pids. ?m0 nid = Some pids \<longrightarrow>
          (\<exists>pids'. n2p nid = Some pids'
             \<and> set pids' = set pids \<union> {pid. linked nodes particles nid pid})"
    by (auto simp: buildNodeToParticles_def)
  moreover have "?m0 (ident n) = Some []" using assms(2) by (simp add: m0)
  ultimately obtain pids' where "n2p (ident n) = Some pids'"
    and "set pids' = set [] \<union> {pid. linked nodes particles (ident n) pid}" by blast
  then show ?thesis by simp
qed

lemma forEach_append:
  "forEach (xs @ ys) f s = (case forEach xs f s of Inl e \<Rightarrow> Inl e | Inr s' \<Rightarrow> forEach ys f s')"
  by (induction xs arbitrary: s) (auto split: sum.splits)

lemma crossingPair_short:
  assumes run: "crossingPair nodes (cracks ! k) k p nodeId st = Inr st'"
    and k: "k < length cracks" and sh: "length (points (cracks ! k)) < 2"
    and ok: "stateOK cracks K R base st"
  shows "st' = st"
proof -
  from run obtain n where n: "find (\<lambda>node. ident node = nodeId) nodes = Some n"
    by (auto simp: crossingPair_def split: option.splits)
  note loop = segmentLoop_short [OF sh, of p n st]
  from run n loop obtain slots where
    sl: "map_of (fieldAccumulator st) (ident n, ident p) = Some slots"
    by (auto simp: crossingPair_def Let_def split: option.splits)
  from stateOK_lookup [OF ok sl] have so: "slotsOK cracks slots" by blast
  from slotsOK_getSlot [OF so k sh] have g: "getSlot slots k = 1" .
  from so k sh have "slots ! k = 1" and "k < length slots" by (simp_all add: slotsOK_def)
  then have e: "setSlot slots k 1 = slots" by (simp add: setSlot_def list_update_same_conv)
  have u: "AList.update (ident n, ident p) slots (fieldAccumulator st) = fieldAccumulator st"
    by (rule update_triv [OF sl])
  from run show ?thesis
    by (simp add: crossingPair_def n loop sl Let_def finalFieldOf_zero g e u)
qed

lemma crossingPhase_short:
  assumes run: "crossingPhase nodes particles p2n (cracks ! k) k st = Inr st'"
    and k: "k < length cracks" and sh: "length (points (cracks ! k)) < 2"
    and ok: "stateOK cracks K R base st"
  shows "st' = st"
proof (rule forEach_invariant [OF run [unfolded crossingPhase_def], where P = "\<lambda>s. s = st"])
  show "st = st" ..
next
  fix p s s'
  assume s: "s = st"
    and "(case p2n (ident p) of None \<Rightarrow> Inl TypeError
          | Some connectedNodeIds \<Rightarrow>
              forEach connectedNodeIds (crossingPair nodes (cracks ! k) k p) s) = Inr s'"
  then obtain L where r: "forEach L (crossingPair nodes (cracks ! k) k p) st = Inr s'"
    by (auto split: option.splits)
  show "s' = st"
  proof (rule forEach_invariant [OF r, where P = "\<lambda>s. s = st"])
    show "st = st" ..
  next
    fix a t t'
    assume "t = st" and "crossingPair nodes (cracks ! k) k p a t = Inr t'"
    then show "t' = st" using crossingPair_short [OF _ k sh ok] by blast
  qed
qed

lemma singleton_list:
  assumes "distinct xs" and "set xs = {v}"
  shows "xs = [v]"
proof (cases xs)
  case Nil
  with assms(2) show ?thesis by simp
next
  case (Cons a list)
  with assms have "a = v" and "set list \<subseteq> {v}" and "v \<notin> set list" by auto
  then have "set list = {}" by (auto simp: subset_singleton_iff)
  with Cons \<open>a = v\<close> show ?thesis by simp
qed

lemma consistencyNode_short:
  assumes run: "consistencyNode n2p k n st = Inr st'"
    and k: "k < length cracks" and sh: "length (points (cracks ! k)) < 2"
    and ok: "stateOK cracks K R base st"
  shows "st' = (if n2p (ident n) = Some [] then st
               else push (consistencyStep (NodeSees (ident n) [1]) n [1]) st)"
proof -
  from run obtain pids where pids: "n2p (ident n) = Some pids"
    by (auto simp: consistencyNode_def split: option.splits)
  show ?thesis
  proof (cases "pids = []")
    case True
    with run pids show ?thesis by (simp add: consistencyNode_def)
  next
    case False
    from consistencyNode_seen [OF pids False run] obtain seen where
      seen: "forEach pids (seeField (fieldAccumulator st) k n) [] = Inr seen"
      and d: "distinct seen"
      and l: "Some ` set seen = seenLabels (fieldAccumulator st) k n pids" by blast
    have "\<forall>(key, slots)\<in>set (fieldAccumulator st). getSlot slots k = 1"
      using ok slotsOK_getSlot [OF _ k sh] by (auto simp: stateOK_def accOK_def)
    from seeField_short [OF seen this] have sub: "set seen \<subseteq> {1}" by simp
    from False have "seenLabels (fieldAccumulator st) k n pids \<noteq> {}" by (simp add: seenLabels_def)
    with l have "set seen \<noteq> {}" by auto
    with sub have "set seen = {1}" by (auto simp: subset_singleton_iff)
    with d have s1: "seen = [1]" by (rule singleton_list)
    from run pids False seen show ?thesis
      by (simp add: consistencyNode_def Let_def s1)
  qed
qed

lemma consistencyLoop_short:
  assumes "forEach ns (consistencyNode n2p k) st = Inr st'"
    and k: "k < length cracks" and sh: "length (points (cracks ! k)) < 2"
    and "stateOK cracks K R base st"
  shows "fieldAccumulator st' = fieldAccumulator st
     \<and> (\<exists>new. steps st' = steps st @ new
          \<and> map description new =
              map (\<lambda>n. NodeSees (ident n) [1]) (filter (\<lambda>n. n2p (ident n) \<noteq> Some []) ns))"
  using assms(1,4)
proof (induction ns arbitrary: st R)
  case Nil
  then show ?case by simp
next
  case (Cons n ns)
  from Cons.prems(1) obtain s1 where s1: "consistencyNode n2p k n st = Inr s1"
    and r: "forEach ns (consistencyNode n2p k) s1 = Inr st'" by (auto split: sum.splits)
  note e = consistencyNode_short [OF s1 k sh Cons.prems(2)]
  have ok1: "stateOK cracks K (\<lambda>s. True) base s1"
    by (rule consistencyNode_OK [OF s1 k stateOK_weaken [OF Cons.prems(2)]]) simp
  from Cons.IH [OF r ok1] obtain new where a: "fieldAccumulator st' = fieldAccumulator s1"
    and b: "steps st' = steps s1 @ new"
    and c: "map description new =
              map (\<lambda>n. NodeSees (ident n) [1]) (filter (\<lambda>n. n2p (ident n) \<noteq> Some []) ns)"
    by blast
  show ?case
  proof (cases "n2p (ident n) = Some []")
    case True
    with e have "s1 = st" by simp
    with a b c True show ?thesis by simp
  next
    case False
    with e have s: "s1 = push (consistencyStep (NodeSees (ident n) [1]) n [1]) st" by simp
    let ?x = "consistencyStep (NodeSees (ident n) [1]) n [1] (stepCounter st)
                (computeCombinedField (fieldAccumulator st))"
    have "steps st' = steps st @ (?x # new)" using b s by (simp add: push_def)
    moreover have "map description (?x # new) =
        map (\<lambda>n. NodeSees (ident n) [1]) (filter (\<lambda>n. n2p (ident n) \<noteq> Some []) (n # ns))"
      using c False by simp
    moreover have "fieldAccumulator st' = fieldAccumulator st" using a s by simp
    ultimately show ?thesis by blast
  qed
qed

lemma processCrack_short:
  assumes run: "processCrack nodes particles p2n n2p (cracks ! k, k) st = Inr st'"
    and k: "k < length cracks" and sh: "length (points (cracks ! k)) < 2"
    and ok: "stateOK cracks K R base st"
  shows "\<exists>mid. steps st' = steps st @ mid
     \<and> map description mid =
         ProcessingCrack (cident (cracks ! k) + 1) # ConsistencyPhase (cident (cracks ! k) + 1)
         # map (\<lambda>n. NodeSees (ident n) [1]) (filter (\<lambda>n. n2p (ident n) \<noteq> Some []) nodes)"
proof -
  let ?crack = "cracks ! k"
  let ?mk1 = "crackStep (ProcessingCrack (cident ?crack + 1)) ?crack"
  let ?mk2 = "crackStep (ConsistencyPhase (cident ?crack + 1)) ?crack"
  let ?s1 = "push ?mk1 st"
  have ok1: "stateOK cracks K (\<lambda>s. True) base ?s1"
    by (rule stateOK_push [OF stateOK_weaken [OF ok]]) (simp_all add: isPairStep_def)
  from run obtain s2 where s2: "crossingPhase nodes particles p2n ?crack k ?s1 = Inr s2"
    and r: "forEach nodes (consistencyNode n2p k) (push ?mk2 s2) = Inr st'"
    by (auto simp: processCrack_def Let_def split: sum.splits)
  from crossingPhase_short [OF s2 k sh ok1] have e2: "s2 = ?s1" .
  let ?s3 = "push ?mk2 ?s1"
  have ok3: "stateOK cracks K (\<lambda>s. True) base ?s3"
    by (rule stateOK_push [OF ok1]) (simp_all add: isPairStep_def)
  from consistencyLoop_short [OF r [unfolded e2] k sh ok3] obtain new where
    b: "steps st' = steps ?s3 @ new"
    and c: "map description new =
              map (\<lambda>n. NodeSees (ident n) [1]) (filter (\<lambda>n. n2p (ident n) \<noteq> Some []) nodes)"
    by blast
  let ?a = "?mk1 (stepCounter st) (computeCombinedField (fieldAccumulator st))"
  let ?b = "?mk2 (stepCounter ?s1) (computeCombinedField (fieldAccumulator ?s1))"
  have A: "steps st' = steps st @ (?a # ?b # new)" using b by (simp add: push_def)
  have B: "map description (?a # ?b # new) =
         ProcessingCrack (cident ?crack + 1) # ConsistencyPhase (cident ?crack + 1)
         # map (\<lambda>n. NodeSees (ident n) [1]) (filter (\<lambda>n. n2p (ident n) \<noteq> Some []) nodes)"
    using c by simp
  show ?thesis
  proof (intro exI conjI)
    show "steps st' = steps st @ (?a # ?b # new)" by (rule A)
    show "map description (?a # ?b # new) =
         ProcessingCrack (cident ?crack + 1) # ConsistencyPhase (cident ?crack + 1)
         # map (\<lambda>n. NodeSees (ident n) [1]) (filter (\<lambda>n. n2p (ident n) \<noteq> Some []) nodes)"
      by (rule B)
  qed
qed

lemma run_tables:
  assumes "distinct (map ident particles)"
  shows "\<exists>n2p acc. buildNodeToParticles nodes particles = Inr n2p
     \<and> initAccumulator (buildParticleToNodes nodes particles) particles N = Inr acc
     \<and> dom (map_of acc) = {(nid, pid). linked nodes particles nid pid}
     \<and> (\<forall>(k, slots)\<in>set acc. slots = replicate N 1)
     \<and> (\<forall>p\<in>set particles. \<exists>L. buildParticleToNodes nodes particles (ident p) = Some L
           \<and> (\<forall>nid\<in>set L. nid \<in> ident ` set nodes
                 \<and> (nid, ident p) \<in> {(nid, pid). linked nodes particles nid pid}))
     \<and> (\<forall>n\<in>set nodes. \<exists>pids. n2p (ident n) = Some pids
           \<and> (\<forall>pid\<in>set pids. (ident n, pid) \<in> {(nid, pid). linked nodes particles nid pid}))"
proof -
  let ?K = "{(nid, pid). linked nodes particles nid pid}"
  let ?p2n = "buildParticleToNodes nodes particles"
  from buildNodeToParticles_total [of nodes particles] obtain n2p where
    n2p: "buildNodeToParticles nodes particles = Inr n2p"
    and dn: "dom n2p = ident ` set nodes"
    and ln: "\<forall>nid pids pid. n2p nid = Some pids \<longrightarrow> pid \<in> set pids \<longrightarrow>
               linked nodes particles nid pid" by blast
  from initAccumulator_total [OF assms, of nodes N] obtain acc where
    acc: "initAccumulator ?p2n particles N = Inr acc"
    and da: "dom (map_of acc) = ?K"
    and ones: "\<forall>(k, slots)\<in>set acc. slots = replicate N 1" by blast
  have A: "\<forall>p\<in>set particles. \<exists>L. ?p2n (ident p) = Some L
             \<and> (\<forall>nid\<in>set L. nid \<in> ident ` set nodes \<and> (nid, ident p) \<in> ?K)"
  proof
    fix p assume p: "p \<in> set particles"
    have "?p2n (ident p) = Some (map ident (connectedNodes nodes p))"
      by (rule buildParticleToNodes_lookup [OF assms p])
    moreover have "\<forall>nid\<in>set (map ident (connectedNodes nodes p)).
        nid \<in> ident ` set nodes \<and> (nid, ident p) \<in> ?K"
      using p set_connectedNodes [of nodes p] by (auto simp: linked_def)
    ultimately show "\<exists>L. ?p2n (ident p) = Some L
             \<and> (\<forall>nid\<in>set L. nid \<in> ident ` set nodes \<and> (nid, ident p) \<in> ?K)" by blast
  qed
  have B: "\<forall>n\<in>set nodes. \<exists>pids. n2p (ident n) = Some pids
             \<and> (\<forall>pid\<in>set pids. (ident n, pid) \<in> ?K)"
  proof
    fix n assume "n \<in> set nodes"
    with dn obtain pids where "n2p (ident n) = Some pids" by blast
    with ln show "\<exists>pids. n2p (ident n) = Some pids \<and> (\<forall>pid\<in>set pids. (ident n, pid) \<in> ?K)"
      by auto
  qed
  from n2p acc da ones A B show ?thesis by blast
qed

lemma cracksLoop_total:
  assumes "\<forall>p\<in>set particles. \<exists>L. p2n (ident p) = Some L
             \<and> (\<forall>nid\<in>set L. nid \<in> ident ` set nodes \<and> (nid, ident p) \<in> K)"
    and "\<forall>n\<in>set nodes. \<exists>pids. n2p (ident n) = Some pids \<and> (\<forall>pid\<in>set pids. (ident n, pid) \<in> K)"
    and "dom (map_of (fieldAccumulator st)) = K"
  shows "\<exists>st'. forEach xs (processCrack nodes particles p2n n2p) st = Inr st'
     \<and> dom (map_of (fieldAccumulator st')) = K"
proof (rule forEach_total [where P = "\<lambda>st. dom (map_of (fieldAccumulator st)) = K"], goal_cases)
  case 1
  from assms(3) show ?case .
next
  case (2 a s)
  obtain crack ci where a: "a = (crack, ci)" by (cases a)
  from processCrack_total [OF assms(1,2) 2(2), of crack ci] show ?case by (simp add: a)
qed

lemma short_crack_core:
  assumes d: "distinct (map ident particles)" and k: "k < length cracks"
    and sh: "length (points (cracks ! k)) < 2"
  shows "\<exists>trace pre mid post.
       generateSimulationSteps nodes particles cracks = Inr trace
     \<and> trace = pre @ mid @ post
     \<and> length (filter isCrackStart pre) = k
     \<and> map description mid =
         ProcessingCrack (cident (cracks ! k) + 1) # ConsistencyPhase (cident (cracks ! k) + 1)
         # map (\<lambda>n. NodeSees (ident n) [1])
             (filter (\<lambda>n. \<exists>pid. linked nodes particles (ident n) pid) nodes)
     \<and> post \<noteq> [] \<and> (isCrackStart (hd post) \<or> description (hd post) = Complete)
     \<and> description (last trace) = Complete
     \<and> (\<forall>s\<in>set trace. stepOK cracks {(nid, pid). linked nodes particles nid pid} s)"
proof -
  let ?K = "{(nid, pid). linked nodes particles nid pid}"
  let ?p2n = "buildParticleToNodes nodes particles"
  let ?N = "length cracks"
  from run_tables [OF d, of nodes ?N] obtain n2p acc where
    n2p: "buildNodeToParticles nodes particles = Inr n2p"
    and acc: "initAccumulator ?p2n particles ?N = Inr acc"
    and da: "dom (map_of acc) = ?K"
    and ones: "\<forall>(k, slots)\<in>set acc. slots = replicate ?N 1"
    and A: "\<forall>p\<in>set particles. \<exists>L. ?p2n (ident p) = Some L
           \<and> (\<forall>nid\<in>set L. nid \<in> ident ` set nodes \<and> (nid, ident p) \<in> ?K)"
    and B: "\<forall>n\<in>set nodes. \<exists>pids. n2p (ident n) = Some pids
           \<and> (\<forall>pid\<in>set pids. (ident n, pid) \<in> ?K)" by blast
  let ?f = "processCrack nodes particles ?p2n n2p"
  let ?zs = "zip cracks [0..<?N]"
  let ?s0 = "plainStep Initialization 0 (computeCombinedField acc)"
  let ?st0 = "push (plainStep Initialization)
                \<lparr>steps = [], stepCounter = 0, fieldAccumulator = acc\<rparr>"
  let ?xs = "take k ?zs" and ?ys = "drop (Suc k) ?zs"
  have kz: "k < length ?zs" using k by simp
  have zk: "?zs ! k = (cracks ! k, k)" using k by simp
  have split: "?zs = ?xs @ (cracks ! k, k) # ?ys"
    using id_take_nth_drop [OF kz] zk by simp
  have d0: "dom (map_of (fieldAccumulator ?st0)) = ?K" using da by simp
  from cracksLoop_total [OF A B d0, of ?xs] obtain s1 where
    s1: "forEach ?xs ?f ?st0 = Inr s1" and d1: "dom (map_of (fieldAccumulator s1)) = ?K" by blast
  from processCrack_total [OF A B d1, of "cracks ! k" k] obtain s2 where
    s2: "?f (cracks ! k, k) s1 = Inr s2" and d2: "dom (map_of (fieldAccumulator s2)) = ?K" by blast
  from cracksLoop_total [OF A B d2, of ?ys] obtain s3 where
    s3: "forEach ?ys ?f s2 = Inr s3" by blast
  have "forEach (?xs @ (cracks ! k, k) # ?ys) ?f ?st0 = Inr s3"
    by (simp add: forEach_append s1 s2 s3)
  then have whole: "forEach ?zs ?f ?st0 = Inr s3" using split by simp
  let ?c = "plainStep Complete (stepCounter s3) (computeCombinedField (fieldAccumulator s3))"
  let ?trace = "steps (push (plainStep Complete) s3)"
  have g: "generateSimulationSteps nodes particles cracks = Inr ?trace"
    by (simp add: generateSimulationSteps_def Let_def n2p acc whole)
  have ok0: "stateOK cracks ?K (\<lambda>s. True) [?s0] ?st0"
    using initial_OK [OF ones, of "\<lambda>s. True"] da by simp
  have m1: "\<forall>a\<in>set ?xs. \<exists>ci<length cracks. a = (cracks ! ci, ci)"
    using zip_cracks_members [of cracks] by (auto dest: in_set_takeD)
  have m3: "\<forall>a\<in>set ?ys. \<exists>ci<length cracks. a = (cracks ! ci, ci)"
    using zip_cracks_members [of cracks] by (auto dest: in_set_dropD)
  from cracksLoop_OK [OF s1 m1 ok0] obtain new1 where
    e1: "steps s1 = steps ?st0 @ new1"
    and c1: "length (filter isCrackStart new1) = length ?xs"
    and ok1: "stateOK cracks ?K (\<lambda>s. True) [?s0] s1"
    by - (elim exE conjE, rule that, assumption+)
  from processCrack_short [OF s2 k sh ok1] obtain mid where
    e2: "steps s2 = steps s1 @ mid"
    and dm: "map description mid =
         ProcessingCrack (cident (cracks ! k) + 1) # ConsistencyPhase (cident (cracks ! k) + 1)
         # map (\<lambda>n. NodeSees (ident n) [1]) (filter (\<lambda>n. n2p (ident n) \<noteq> Some []) nodes)"
    by - (elim exE conjE, rule that, assumption+)
  from processCrack_OK [OF s2 k ok1] have ok2: "stateOK cracks ?K (\<lambda>s. True) [?s0] s2"
    by - (elim exE conjE)
  from cracksLoop_OK [OF s3 m3 ok2] obtain new3 where
    e3: "steps s3 = steps s2 @ new3"
    and z3: "?ys = [] \<longrightarrow> new3 = []"
    and h3: "?ys \<noteq> [] \<longrightarrow> new3 \<noteq> [] \<and> isCrackStart (hd new3)"
    and ok3: "stateOK cracks ?K (\<lambda>s. True) [?s0] s3"
    by - (elim exE conjE, rule that, assumption+)
  have ok4: "stateOK cracks ?K (\<lambda>s. True) [?s0] (push (plainStep Complete) s3)"
    by (rule stateOK_push [OF ok3]) (simp_all add: plainStep_def isPairStep_def)
  let ?post = "new3 @ [?c]"
  have t: "?trace = steps s1 @ mid @ ?post" by (simp add: push_def e3 e2)
  have "steps ?st0 = [?s0]" by (simp add: push_def)
  moreover have "\<not> isCrackStart ?s0" by (simp add: isCrackStart_def plainStep_def)
  ultimately have cp: "length (filter isCrackStart (steps s1)) = k"
    using e1 c1 kz by simp
  have fe: "filter (\<lambda>n. n2p (ident n) \<noteq> Some []) nodes =
      filter (\<lambda>n. \<exists>pid. linked nodes particles (ident n) pid) nodes"
  proof (rule filter_cong [OF refl])
    fix n assume "n \<in> set nodes"
    from buildNodeToParticles_linked [OF n2p this] obtain pids where
      "n2p (ident n) = Some pids" and "set pids = {pid. linked nodes particles (ident n) pid}"
      by blast
    then show "(n2p (ident n) \<noteq> Some []) = (\<exists>pid. linked nodes particles (ident n) pid)"
      by (cases pids) auto
  qed
  have hp: "isCrackStart (hd ?post) \<or> description (hd ?post) = Complete"
  proof (cases "?ys = []")
    case True
    with z3 show ?thesis by (simp add: plainStep_def)
  next
    case False
    with h3 show ?thesis by simp
  qed
  have lt: "description (last ?trace) = Complete" by (simp add: push_def plainStep_def)
  have so: "\<forall>s\<in>set ?trace. stepOK cracks ?K s" using ok4 by (simp add: stateOK_def)
  show ?thesis
  proof (intro exI conjI)
    show "generateSimulationSteps nodes particles cracks = Inr ?trace" by (rule g)
    show "?trace = steps s1 @ mid @ ?post" by (rule t)
    show "length (filter isCrackStart (steps s1)) = k" by (rule cp)
    show "map description mid =
         ProcessingCrack (cident (cracks ! k) + 1) # ConsistencyPhase (cident (cracks ! k) + 1)
         # map (\<lambda>n. NodeSees (ident n) [1])
             (filter (\<lambda>n. \<exists>pid. linked nodes particles (ident n) pid) nodes)"
      using dm fe by simp
    show "?post \<noteq> []" by simp
    show "isCrackStart (hd ?post) \<or> description (hd ?post) = Complete" by (rule hp)
    show "description (last ?trace) = Complete" by (rule lt)
    show "\<forall>s\<in>set ?trace. stepOK cracks ?K s" by (rule so)
  qed
qed

lemma linked_connected:
  "(\<exists>pid. linked nodes particles nid pid) \<longleftrightarrow>
     (\<exists>p\<in>set particles. nid \<in> ident ` set (connectedNodes nodes p))"
  by (auto simp: linked_def)

lemma not_pair_descriptions:
  assumes "map description mid = ProcessingCrack a # ConsistencyPhase b # map (\<lambda>n. NodeSees (ident n) [1]) ns"
  shows "mid \<noteq> [] \<and> description (hd mid) = ProcessingCrack a \<and> (\<forall>s\<in>set mid. \<not> isPairStep s)"
proof -
  from assms have ne: "mid \<noteq> []" by auto
  with assms have h: "description (hd mid) = ProcessingCrack a" by (cases mid) auto
  have "\<forall>s\<in>set mid. \<not> isPairStep s"
  proof
    fix s assume "s \<in> set mid"
    then have "description s \<in> set (map description mid)" by simp
    then have "description s \<in> insert (ProcessingCrack a) (insert (ConsistencyPhase b)
        ((\<lambda>n. NodeSees (ident n) [1]) ` set ns))"
      unfolding assms by simp
    then show "\<not> isPairStep s" by (auto simp: isPairStep_def)
  qed
  with ne h show ?thesis by simp
qed

text \<open>
  Claim C5 as stated fails: no \<open>InvalidCrack\<close> error exists in the code, and a crack
  of a single point is processed like any other, with no segment to test.
\<close>

theorem short_crack_counterexample:
  "map_sum id (map stepView)
     (generateSimulationSteps case1_nodes case1_particles short_cracks) =
   Inr [(Initialization, None, None, None),
        (ProcessingCrack 1, None, None, None),
        (ConsistencyPhase 1, None, None, None),
        (NodeSees 0 [1], None, Some [1], None),
        (NodeSees 1 [1], None, Some [1], None),
        (NodeSees 2 [1], None, Some [1], None),
        (NodeSees 3 [1], None, Some [1], None),
        (Complete, None, None, None)]"
  by code_simp

text \<open>
  Claim C5, amended. For every input with unique particle identities that contains a crack,
  at index \<open>k\<close>, of fewer than 2 points, \<open>generateSimulationSteps\<close> does not fail:
  it returns a trace that ends with the completion step, and the stretch of the trace
  recorded for that crack, from the start step of the crack (the one after \<open>k\<close> earlier
  crack-start steps) up to the start step of the next crack or the completion step,
  contains no per-segment step and no result step.
\<close>

theorem short_crack_accepted:
  assumes "distinct (map ident particles)" and "k < length cracks"
    and "length (points (cracks ! k)) < 2"
  shows "\<exists>trace pre mid post.
       generateSimulationSteps nodes particles cracks = Inr trace
     \<and> trace = pre @ mid @ post
     \<and> length (filter isCrackStart pre) = k
     \<and> mid \<noteq> [] \<and> description (hd mid) = ProcessingCrack (cident (cracks ! k) + 1)
     \<and> (\<forall>s\<in>set mid. \<not> isPairStep s)
     \<and> post \<noteq> [] \<and> (isCrackStart (hd post) \<or> description (hd post) = Complete)
     \<and> description (last trace) = Complete"
proof -
  from short_crack_core [OF assms, of nodes] obtain trace pre mid post where
    g: "generateSimulationSteps nodes particles cracks = Inr trace"
    and t: "trace = pre @ mid @ post"
    and c: "length (filter isCrackStart pre) = k"
    and m: "map description mid =
         ProcessingCrack (cident (cracks ! k) + 1) # ConsistencyPhase (cident (cracks ! k) + 1)
         # map (\<lambda>n. NodeSees (ident n) [1])
             (filter (\<lambda>n. \<exists>pid. linked nodes particles (ident n) pid) nodes)"
    and p: "post \<noteq> []" "isCrackStart (hd post) \<or> description (hd post) = Complete"
    and l: "description (last trace) = Complete"
    by - (elim exE conjE, rule that, assumption+)
  note n = not_pair_descriptions [OF m]
  show ?thesis
  proof (intro exI conjI)
    show "generateSimulationSteps nodes particles cracks = Inr trace" by (rule g)
    show "trace = pre @ mid @ post" by (rule t)
    show "length (filter isCrackStart pre) = k" by (rule c)
    show "mid \<noteq> []" using n by simp
    show "description (hd mid) = ProcessingCrack (cident (cracks ! k) + 1)" using n by simp
    show "\<forall>s\<in>set mid. \<not> isPairStep s" using n by simp
    show "post \<noteq> []" by (rule p(1))
    show "isCrackStart (hd post) \<or> description (hd post) = Complete" by (rule p(2))
    show "description (last trace) = Complete" by (rule l)
  qed
qed

theorem short_crack_accepted_witness:
  "distinct (map ident case1_particles) \<and> 0 < length short_cracks
   \<and> length (points (short_cracks ! 0)) < 2
   \<and> (\<exists>trace pre mid post.
       generateSimulationSteps case1_nodes case1_particles short_cracks = Inr trace
     \<and> trace = pre @ mid @ post
     \<and> length (filter isCrackStart pre) = 0
     \<and> mid \<noteq> [] \<and> description (hd mid) = ProcessingCrack (cident (short_cracks ! 0) + 1)
     \<and> (\<forall>s\<in>set mid. \<not> isPairStep s)
     \<and> post \<noteq> [] \<and> (isCrackStart (hd post) \<or> description (hd post) = Complete)
     \<and> description (last trace) = Complete)"
proof -
  have a: "distinct (map ident case1_particles)"
    by (simp add: case1_particles_def mkNode_def)
  have b: "0 < length short_cracks" by (simp add: short_cracks_def)
  have c: "length (points (short_cracks ! 0)) < 2" by (simp add: short_cracks_def)
  note t = short_crack_accepted [OF a b c, of case1_nodes]
  show ?thesis by (intro conjI a b c t)
qed

text \<open>
  Claim C10 as stated fails: the uniqueness of particle identities is needed. When two
  particles share an identity, the entry of \<open>particleToNodes\<close> is the second particle's,
  node 0 is connected to the first particle only, and the consistency pass of the crack of
  one point reads, at node 0, a pair that has no entry: the run throws.
\<close>

theorem short_crack_twin_counterexample:
  "generateSimulationSteps line_nodes twin_particles short_cracks = Inl TypeError"
  by code_simp

text \<open>
  Claim C10, amended. For an input with unique particle identities and a crack, at index
  \<open>k\<close>, of fewer than 2 points, the run returns a trace, which ends with the completion
  step. The steps recorded for that crack, from its start step (the one after \<open>k\<close>
  earlier crack-start steps) up to the start step of the next crack or the completion step,
  are its start step, the start step of its consistency phase and, for every node that has
  a connected particle, in node order, the report that the node sees the label 1 alone.
  Every per-segment step and every result step of the trace was recorded for another crack.
  Every snapshot of the trace, the completion step's included, is the encoding of an
  accumulator that holds, for every connected pair, one label in \<open>{1, 2, 3}\<close> for every
  crack and the label 1 for crack \<open>k\<close>.
\<close>

theorem short_crack_run:
  assumes "distinct (map ident particles)" and "k < length cracks"
    and "length (points (cracks ! k)) < 2"
  shows "\<exists>trace pre mid post.
       generateSimulationSteps nodes particles cracks = Inr trace
     \<and> trace = pre @ mid @ post
     \<and> length (filter isCrackStart pre) = k
     \<and> map description mid =
         ProcessingCrack (cident (cracks ! k) + 1) # ConsistencyPhase (cident (cracks ! k) + 1)
         # map (\<lambda>n. NodeSees (ident n) [1])
             (filter (\<lambda>n. \<exists>p\<in>set particles. ident n \<in> ident ` set (connectedNodes nodes p)) nodes)
     \<and> post \<noteq> [] \<and> (isCrackStart (hd post) \<or> description (hd post) = Complete)
     \<and> description (last trace) = Complete
     \<and> (\<forall>s\<in>set trace. isPairStep s \<longrightarrow>
           (\<exists>j<length cracks. j \<noteq> k \<and> highlightCrackId s = Some (cident (cracks ! j))))
     \<and> (\<forall>s\<in>set trace. \<exists>acc. currentFieldState s = computeCombinedField acc
           \<and> (\<forall>p\<in>set particles. \<forall>n\<in>set (connectedNodes nodes p).
                 \<exists>slots. map_of acc (ident n, ident p) = Some slots
                   \<and> length slots = length cracks \<and> set slots \<subseteq> {1, 2, 3} \<and> slots ! k = 1
                   \<and> map_of (currentFieldState s) (ident n, ident p) = Some (combinedValue slots)))"
proof -
  let ?K = "{(nid, pid). linked nodes particles nid pid}"
  from short_crack_core [OF assms, of nodes] obtain trace pre mid post where
    g: "generateSimulationSteps nodes particles cracks = Inr trace"
    and t: "trace = pre @ mid @ post"
    and c: "length (filter isCrackStart pre) = k"
    and m: "map description mid =
         ProcessingCrack (cident (cracks ! k) + 1) # ConsistencyPhase (cident (cracks ! k) + 1)
         # map (\<lambda>n. NodeSees (ident n) [1])
             (filter (\<lambda>n. \<exists>pid. linked nodes particles (ident n) pid) nodes)"
    and p: "post \<noteq> []" "isCrackStart (hd post) \<or> description (hd post) = Complete"
    and l: "description (last trace) = Complete"
    and ok: "\<forall>s\<in>set trace. stepOK cracks ?K s"
    by - (elim exE conjE, rule that, assumption+)
  have a: "\<forall>s\<in>set trace. isPairStep s \<longrightarrow>
           (\<exists>j<length cracks. j \<noteq> k \<and> highlightCrackId s = Some (cident (cracks ! j)))"
  proof (intro ballI impI)
    fix s assume "s \<in> set trace" and "isPairStep s"
    with ok obtain j where "j < length cracks" and "\<not> length (points (cracks ! j)) < 2"
      and "highlightCrackId s = Some (cident (cracks ! j))" by (auto simp: stepOK_def)
    with assms(3) show "\<exists>j<length cracks. j \<noteq> k \<and> highlightCrackId s = Some (cident (cracks ! j))"
      by auto
  qed
  have b: "\<forall>s\<in>set trace. \<exists>acc. currentFieldState s = computeCombinedField acc
           \<and> (\<forall>p\<in>set particles. \<forall>n\<in>set (connectedNodes nodes p).
                 \<exists>slots. map_of acc (ident n, ident p) = Some slots
                   \<and> length slots = length cracks \<and> set slots \<subseteq> {1, 2, 3} \<and> slots ! k = 1
                   \<and> map_of (currentFieldState s) (ident n, ident p) = Some (combinedValue slots))"
  proof
    fix s assume "s \<in> set trace"
    with ok obtain acc where ao: "accOK cracks ?K acc"
      and cf: "currentFieldState s = computeCombinedField acc" by (auto simp: stepOK_def)
    have "\<forall>p\<in>set particles. \<forall>n\<in>set (connectedNodes nodes p).
                 \<exists>slots. map_of acc (ident n, ident p) = Some slots
                   \<and> length slots = length cracks \<and> set slots \<subseteq> {1, 2, 3} \<and> slots ! k = 1
                   \<and> map_of (currentFieldState s) (ident n, ident p) = Some (combinedValue slots)"
    proof (intro ballI)
      fix p n assume pn: "p \<in> set particles" "n \<in> set (connectedNodes nodes p)"
      then have "(ident n, ident p) \<in> ?K" by (auto simp: linked_def)
      with ao obtain slots where sl: "map_of acc (ident n, ident p) = Some slots"
        by (auto simp: accOK_def)
      from accOK_lookup [OF ao sl] have so: "slotsOK cracks slots" by blast
      with assms(2,3) have "length slots = length cracks" "set slots \<subseteq> {1, 2, 3}" "slots ! k = 1"
        by (simp_all add: slotsOK_def)
      moreover have "map_of (currentFieldState s) (ident n, ident p) = Some (combinedValue slots)"
        by (simp add: cf map_of_combined sl)
      ultimately show "\<exists>slots. map_of acc (ident n, ident p) = Some slots
                   \<and> length slots = length cracks \<and> set slots \<subseteq> {1, 2, 3} \<and> slots ! k = 1
                   \<and> map_of (currentFieldState s) (ident n, ident p) = Some (combinedValue slots)"
        using sl by blast
    qed
    with cf show "\<exists>acc. currentFieldState s = computeCombinedField acc
           \<and> (\<forall>p\<in>set particles. \<forall>n\<in>set (connectedNodes nodes p).
                 \<exists>slots. map_of acc (ident n, ident p) = Some slots
                   \<and> length slots = length cracks \<and> set slots \<subseteq> {1, 2, 3} \<and> slots ! k = 1
                   \<and> map_of (currentFieldState s) (ident n, ident p) = Some (combinedValue slots))"
      by blast
  qed
  have m': "map description mid =
         ProcessingCrack (cident (cracks ! k) + 1) # ConsistencyPhase (cident (cracks ! k) + 1)
         # map (\<lambda>n. NodeSees (ident n) [1])
             (filter (\<lambda>n. \<exists>p\<in>set particles. ident n \<in> ident ` set (connectedNodes nodes p)) nodes)"
    using m by (simp only: linked_connected)
  show ?thesis
  proof (intro exI conjI)
    show "generateSimulationSteps nodes particles cracks = Inr trace" by (rule g)
    show "trace = pre @ mid @ post" by (rule t)
    show "length (filter isCrackStart pre) = k" by (rule c)
    show "map description mid =
         ProcessingCrack (cident (cracks ! k) + 1) # ConsistencyPhase (cident (cracks ! k) + 1)
         # map (\<lambda>n. NodeSees (ident n) [1])
             (filter (\<lambda>n. \<exists>p\<in>set particles. ident n \<in> ident ` set (connectedNodes nodes p)) nodes)"
      by (rule m')
    show "post \<noteq> []" by (rule p(1))
    show "isCrackStart (hd post) \<or> description (hd post) = Complete" by (rule p(2))
    show "description (last trace) = Complete" by (rule l)
    show "\<forall>s\<in>set trace. isPairStep s \<longrightarrow>
           (\<exists>j<length cracks. j \<noteq> k \<and> highlightCrackId s = Some (cident (cracks ! j)))"
      by (rule a)
    show "\<forall>s\<in>set trace. \<exists>acc. currentFieldState s = computeCombinedField acc
           \<and> (\<forall>p\<in>set particles. \<forall>n\<in>set (connectedNodes nodes p).
                 \<exists>slots. map_of acc (ident n, ident p) = Some slots
                   \<and> length slots = length cracks \<and> set slots \<subseteq> {1, 2, 3} \<and> slots ! k = 1
                   \<and> map_of (currentFieldState s) (ident n, ident p) = Some (combinedValue slots))"
      by (rule b)
  qed
qed

theorem short_crack_run_witness:
  "distinct (map ident case1_particles) \<and> 0 < length two_cracks
   \<and> length (points (two_cracks ! 0)) < 2
   \<and> (\<exists>trace pre mid post.
       generateSimulationSteps case1_nodes case1_particles two_cracks = Inr trace
     \<and> trace = pre @ mid @ post
     \<and> length (filter isCrackStart pre) = 0
     \<and> map description mid =
         ProcessingCrack (cident (two_cracks ! 0) + 1) # ConsistencyPhase (cident (two_cracks ! 0) + 1)
         # map (\<lambda>n. NodeSees (ident n) [1])
             (filter (\<lambda>n. \<exists>p\<in>set case1_particles.
                 ident n \<in> ident ` set (connectedNodes case1_nodes p)) case1_nodes)
     \<and> post \<noteq> [] \<and> (isCrackStart (hd post) \<or> description (hd post) = Complete)
     \<and> description (last trace) = Complete
     \<and> (\<forall>s\<in>set trace. isPairStep s \<longrightarrow>
           (\<exists>j<length two_cracks. j \<noteq> 0 \<and> highlightCrackId s = Some (cident (two_cracks ! j))))
     \<and> (\<forall>s\<in>set trace. \<exists>acc. currentFieldState s = computeCombinedField acc
           \<and> (\<forall>p\<in>set case1_particles. \<forall>n\<in>set (connectedNodes case1_nodes p).
                 \<exists>slots. map_of acc (ident n, ident p) = Some slots
                   \<and> length slots = length two_cracks \<and> set slots \<subseteq> {1, 2, 3} \<and> slots ! 0 = 1
                   \<and> map_of (currentFieldState s) (ident n, ident p) = Some (combinedValue slots))))"
proof -
  have a: "distinct (map ident case1_particles)"
    by (simp add: case1_particles_def mkNode_def)
  have b: "0 < length two_cracks" by (simp add: two_cracks_def)
  have c: "length (points (two_cracks ! 0)) < 2" by (simp add: two_cracks_def)
  note t = short_crack_run [OF a b c, of case1_nodes]
  show ?thesis by (intro conjI a b c t)
qed

end
